theory Spec2Isabelle
  imports Main "HOL-Library.Word" "HOL-Library.Char_ord"
begin

unbundle bit_operations_syntax

section \<open>Go's string library, as far as msggen.go uses it\<close>

text \<open>
  A Go string is a sequence of bytes; it is modelled as a \<open>string\<close> (a list of
  8-bit characters).  \<^verbatim>\<open>strings.Split\<close> and \<^verbatim>\<open>strings.Join\<close> work on the
  bytes and are modelled for every text.  The case mappings \<^verbatim>\<open>strings.ToLower\<close>
  and \<^verbatim>\<open>strings.Title\<close> are modelled on ASCII text, where a rune is a byte and
  the library decides by comparing with \<^verbatim>\<open>'a'\<close>, \<^verbatim>\<open>'z'\<close>, \<^verbatim>\<open>'A'\<close>,
  \<^verbatim>\<open>'Z'\<close>.  For a text with a byte from \<^verbatim>\<open>utf8.RuneSelf\<close> (0x80) on, Go
  decodes UTF-8, maps the runes through its Unicode tables and writes U+FFFD for a byte
  that is not UTF-8; the tables are not part of this development, and the functions
  below are not Go's on such a text.  What is stated about the result of a case mapping
  is therefore stated for ASCII text, \<open>isASCII\<close>, which is what the message names and
  type codes of the protocol are.
\<close>


text \<open>
  \<^verbatim>\<open>strings.Split(s, sep)\<close> with a one-byte separator: the pieces between the
  separators, a string without separator being its only piece.
\<close>

fun Split :: "string \<Rightarrow> char \<Rightarrow> string list" where
  "Split [] sep = [[]]"
| "Split (c # cs) sep =
     (if c = sep then [] # Split cs sep
      else (case Split cs sep of [] \<Rightarrow> [[c]] | p # ps \<Rightarrow> (c # p) # ps))"

text \<open>\<^verbatim>\<open>strings.Join(parts, sep)\<close>.\<close>

fun Join :: "string list \<Rightarrow> string \<Rightarrow> string" where
  "Join [] sep = []"
| "Join [p] sep = p"
| "Join (p # ps) sep = p @ sep @ Join ps sep"

text \<open>
  \<^verbatim>\<open>strings.ToLower\<close> on ASCII text, byte by byte:
  \<^verbatim>\<open>if 'A' <= c && c <= 'Z' { c += 'a' - 'A' }\<close>.
\<close>

definition lower_byte :: "char \<Rightarrow> char" where
  "lower_byte c =
     (if CHR ''A'' \<le> c \<and> c \<le> CHR ''Z'' then char_of (of_char c + 32 :: nat) else c)"

definition ToLower :: "string \<Rightarrow> string" where
  "ToLower s = map lower_byte s"

text \<open>
  \<^verbatim>\<open>strings.Title\<close> on ASCII text.  It maps the first letter of every word to
  title case; a word starts after a separator, and \<^verbatim>\<open>isSeparator\<close> says that
  ASCII letters, digits and the underscore are the ASCII characters that do not
  separate.  \<^verbatim>\<open>unicode.ToTitle\<close> of an ASCII rune is
  \<^verbatim>\<open>if 'a' <= r && r <= 'z' { r -= 'a' - 'A' }\<close>.  The closure's variable
  \<^verbatim>\<open>prev\<close> starts as a blank.  (The last branch of \<open>isSeparator\<close> and the
  bytes from 0x80 on in \<open>ToTitle\<close> are not reached on ASCII text.)
\<close>

definition isSeparator :: "char \<Rightarrow> bool" where
  "isSeparator r =
     (if r \<le> CHR 0x7F then
        (if CHR ''0'' \<le> r \<and> r \<le> CHR ''9'' then False
         else if CHR ''a'' \<le> r \<and> r \<le> CHR ''z'' then False
         else if CHR ''A'' \<le> r \<and> r \<le> CHR ''Z'' then False
         else if r = CHR ''_'' then False
         else True)
      else False)"

definition ToTitle :: "char \<Rightarrow> char" where
  "ToTitle r =
     (if CHR ''a'' \<le> r \<and> r \<le> CHR ''z'' then char_of (of_char r - 32 :: nat) else r)"

fun Title_from :: "char \<Rightarrow> string \<Rightarrow> string" where
  "Title_from prev [] = []"
| "Title_from prev (r # rs) =
     (if isSeparator prev then ToTitle r # Title_from r rs else r # Title_from r rs)"

definition Title :: "string \<Rightarrow> string" where
  "Title s = Title_from CHR '' '' s"

section \<open>The naming normalizer\<close>

text \<open>
  \<^verbatim>\<open>
  func msgtypename(s string) string {
      parts := strings.Split(strings.ToLower(s), "-")
      for i, v := range parts { parts[i] = strings.Title(v) }
      return strings.Join(parts[1:], "")
  }
  \<close>
  \<^verbatim>\<open>Split\<close> returns at least one piece, so \<^verbatim>\<open>parts[1:]\<close> never panics.
\<close>

definition msgtypename :: "string \<Rightarrow> string" where
  "msgtypename s =
     (let parts = Split (ToLower s) CHR ''-'';
          parts = map Title parts
      in Join (drop 1 parts) [])"

section \<open>Go's \<^verbatim>\<open>strconv.ParseUint\<close> with base argument 0\<close>

text \<open>
  Both call sites of \<^verbatim>\<open>strconv.ParseUint\<close> pass 0 as the base, so the function is
  modelled for that argument: the base is taken from the prefix of the text and
  underscores are let through, to be checked by \<^verbatim>\<open>underscoreOK\<close> at the end.
  The function returns a value together with an error; callers that drop the error
  (as \<^verbatim>\<open>mask\<close> does) still see the value, so both are kept.  Values of type
  \<^verbatim>\<open>uint64\<close> are natural numbers, with the wrap-around written out.
\<close>

datatype NumError = ErrSyntax | ErrRange | ErrBitSize

text \<open>\<^verbatim>\<open>func lower(c byte) byte { return c | ('x' - 'X') }\<close>\<close>

definition lower :: "char \<Rightarrow> char" where
  "lower c = char_of ((of_char c :: nat) OR 32)"

text \<open>
  The digit a byte stands for, as the \<^verbatim>\<open>switch\<close> in the loop computes it (the case
  of the underscore is in \<open>scan\<close>); \<open>None\<close> is the \<^verbatim>\<open>default\<close> branch.
\<close>

definition digit_of :: "char \<Rightarrow> nat option" where
  "digit_of c =
     (if CHR ''0'' \<le> c \<and> c \<le> CHR ''9'' then Some (of_char c - of_char CHR ''0'')
      else if CHR ''a'' \<le> lower c \<and> lower c \<le> CHR ''z''
      then Some (of_char (lower c) - of_char CHR ''a'' + 10)
      else None)"

text \<open>
  The loop \<^verbatim>\<open>for _, c := range []byte(s)\<close>.  It leaves early with
  \<^verbatim>\<open>(0, syntaxError)\<close> or \<^verbatim>\<open>(maxVal, rangeError)\<close>, whichever comes first
  in the text, or runs to the end with the number read and the flag
  \<^verbatim>\<open>underscores\<close>.
\<close>

fun scan :: "nat \<Rightarrow> nat \<Rightarrow> nat \<Rightarrow> string \<Rightarrow> nat \<Rightarrow> bool \<Rightarrow> (nat \<times> NumError) + (nat \<times> bool)" where
  "scan base cutoff maxVal [] n underscores = Inr (n, underscores)"
| "scan base cutoff maxVal (c # cs) n underscores =
     (if c = CHR ''_'' then scan base cutoff maxVal cs n True
      else case digit_of c of
        None \<Rightarrow> Inl (0, ErrSyntax)
      | Some d \<Rightarrow>
          if d \<ge> base then Inl (0, ErrSyntax)
          else if n \<ge> cutoff then Inl (maxVal, ErrRange)
          else
            let n' = (n * base) mod 2 ^ 64;
                n1 = (n' + d) mod 2 ^ 64
            in if n1 < n' \<or> n1 > maxVal then Inl (maxVal, ErrRange)
               else scan base cutoff maxVal cs n1 underscores)"

text \<open>
  \<^verbatim>\<open>underscoreOK\<close>: an underscore must stand between digits, or between a base
  prefix and a digit.  \<open>saw\<close> is the last kind of character seen.
\<close>

fun underscoreOK_from :: "bool \<Rightarrow> char \<Rightarrow> string \<Rightarrow> bool" where
  "underscoreOK_from hex saw [] = (saw \<noteq> CHR ''_'')"
| "underscoreOK_from hex saw (c # cs) =
     (if (CHR ''0'' \<le> c \<and> c \<le> CHR ''9'') \<or> (hex \<and> CHR ''a'' \<le> lower c \<and> lower c \<le> CHR ''f'')
      then underscoreOK_from hex CHR ''0'' cs
      else if c = CHR ''_''
      then (if saw \<noteq> CHR ''0'' then False else underscoreOK_from hex CHR ''_'' cs)
      else if saw = CHR ''_'' then False
      else underscoreOK_from hex CHR ''!'' cs)"

definition underscoreOK :: "string \<Rightarrow> bool" where
  "underscoreOK s0 =
     (let s = (if length s0 \<ge> 1 \<and> (s0 ! 0 = CHR ''-'' \<or> s0 ! 0 = CHR ''+'') then drop 1 s0 else s0)
      in if length s \<ge> 2 \<and> s ! 0 = CHR ''0'' \<and>
            (lower (s ! 1) = CHR ''b'' \<or> lower (s ! 1) = CHR ''o'' \<or> lower (s ! 1) = CHR ''x'')
         then underscoreOK_from (lower (s ! 1) = CHR ''x'') CHR ''0'' (drop 2 s)
         else underscoreOK_from False CHR ''^'' s)"

text \<open>
  The prefix decides the base: \<^verbatim>\<open>0b\<close> 2, \<^verbatim>\<open>0o\<close> 8, \<^verbatim>\<open>0x\<close> 16 (each
  only when a third character follows), any other leading \<^verbatim>\<open>0\<close> 8, and 10
  otherwise.
\<close>

definition base_prefix :: "string \<Rightarrow> nat \<times> string" where
  "base_prefix s =
     (if s ! 0 = CHR ''0'' then
        (if length s \<ge> 3 \<and> lower (s ! 1) = CHR ''b'' then (2, drop 2 s)
         else if length s \<ge> 3 \<and> lower (s ! 1) = CHR ''o'' then (8, drop 2 s)
         else if length s \<ge> 3 \<and> lower (s ! 1) = CHR ''x'' then (16, drop 2 s)
         else (8, drop 1 s))
      else (10, s))"

text \<open>
  \<^verbatim>\<open>ParseUint(s, 0, bitSize)\<close>.  \<^verbatim>\<open>maxVal\<close> is
  \<^verbatim>\<open>uint64(1)<<uint(bitSize) - 1\<close>, which wraps to the largest 64-bit value for
  \<^verbatim>\<open>bitSize\<close> 64; a \<^verbatim>\<open>bitSize\<close> of 0 stands for the size of \<^verbatim>\<open>int\<close>
  (64 bits).
\<close>

definition ParseUint :: "string \<Rightarrow> nat \<Rightarrow> nat \<times> NumError option" where
  "ParseUint s bitSize =
     (if s = [] then (0, Some ErrSyntax)
      else
        let (base, digits) = base_prefix s;
            bitSize = (if bitSize = 0 then 64 else bitSize)
        in if bitSize > 64 then (0, Some ErrBitSize)
           else
             let cutoff = (2 ^ 64 - 1) div base + 1;
                 maxVal = (2 ^ bitSize mod 2 ^ 64 + (2 ^ 64 - 1)) mod 2 ^ 64
             in case scan base cutoff maxVal digits 0 False of
                  Inl (v, e) \<Rightarrow> (v, Some e)
                | Inr (n, underscores) \<Rightarrow>
                    if underscores \<and> \<not> underscoreOK s then (0, Some ErrSyntax)
                    else (n, None))"

section \<open>Formatting with \<^verbatim>\<open>%x\<close>\<close>

text \<open>
  \<^verbatim>\<open>fmt\<close> writes an integer in base 16 from the least significant digit:
  \<^verbatim>\<open>for u >= 16 { buf[i] = digits[u&0xF]; u >>= 4 }; buf[i] = digits[u]\<close>,
  with lower-case digits, and puts a minus sign in front of the magnitude of a
  negative signed value.
\<close>

definition hex_digit :: "nat \<Rightarrow> char" where
  "hex_digit d = ''0123456789abcdef'' ! d"

function fmt_hex :: "nat \<Rightarrow> string" where
  "fmt_hex u = (if u \<ge> 16 then fmt_hex (u div 16) @ [hex_digit (u mod 16)] else [hex_digit u])"
  by pat_completeness auto
termination
  by (relation "measure id") auto

definition fmt_x :: "int \<Rightarrow> string" where
  "fmt_x v = (if v < 0 then ''-'' @ fmt_hex (nat (- v)) else fmt_hex (nat v))"

section \<open>The bit-mask resolver\<close>

text \<open>
  \<^verbatim>\<open>
  func mask(s string) string {
      parts := strings.Split(s, ":")
      if len(parts) == 2 {
          hi, _ := strconv.ParseUint(parts[0], 0, 8)
          lo, _ := strconv.ParseUint(parts[1], 0, 8)
          return fmt.Sprintf("0x%x", ((1<<(hi+1))-1)^((1<<(lo))-1))
      }
      i, _ := strconv.ParseUint(s, 0, 8)
      return fmt.Sprintf("0x%x", 1<<i)
  }
  \<close>
  The constant 1 is untyped and the shifts are not constant, so 1 takes the type it
  would have without the shift: \<^verbatim>\<open>int\<close>, as the argument of \<^verbatim>\<open>Sprintf\<close> is an
  interface value.  \<^verbatim>\<open>int\<close> is the signed 64-bit integer of a 64-bit platform: a
  \<open>64 word\<close> read with \<open>sint\<close>.  The shift counts are \<^verbatim>\<open>uint64\<close>; a count of
  64 or more shifts every bit out, as \<open>push_bit\<close> does.
\<close>

type_synonym go_int = "64 word"

definition Sprintf_0x :: "go_int \<Rightarrow> string" where
  "Sprintf_0x v = ''0x'' @ fmt_x (sint v)"

definition mask_str :: "string \<Rightarrow> string" where
  "mask_str s =
     (let parts = Split s CHR '':''
      in if length parts = 2 then
           let hi = fst (ParseUint (parts ! 0) 8);
               lo = fst (ParseUint (parts ! 1) 8)
           in Sprintf_0x ((push_bit ((hi + 1) mod 2 ^ 64) 1 - 1) XOR (push_bit lo 1 - 1))
         else
           let i = fst (ParseUint s 8)
           in Sprintf_0x (push_bit i 1))"

section \<open>The scalar type resolver\<close>

text \<open>
  \<^verbatim>\<open>var reCType = regexp.MustCompile(`([CHIRUX0-9_]+)(\[[0-9]+\])?`)\<close>

  The pattern has no anchors, so \<^verbatim>\<open>FindStringSubmatch\<close> looks for the leftmost
  match anywhere in the text.  Every character of the class \<^verbatim>\<open>[CHIRUX0-9_]\<close> starts
  a match, so the match starts at the first such character; the first group is greedy
  and the rest of the pattern can match the empty text, so the group is the longest run
  of class characters from there; the second group is optional and greedy, so it is
  taken exactly when a bracketed run of digits follows, and is the empty string
  otherwise.  The result is \<^verbatim>\<open>nil\<close> when no character of the class occurs, and
  the three strings (whole match, first group, second group) otherwise.
\<close>

definition is_digit :: "char \<Rightarrow> bool" where
  "is_digit c \<longleftrightarrow> CHR ''0'' \<le> c \<and> c \<le> CHR ''9''"

definition ctype_char :: "char \<Rightarrow> bool" where
  "ctype_char c \<longleftrightarrow> c \<in> set ''CHIRUX'' \<or> is_digit c \<or> c = CHR ''_''"

definition arraylen_group :: "string \<Rightarrow> string" where
  "arraylen_group rest =
     (case rest of
        [] \<Rightarrow> []
      | c # r \<Rightarrow>
          if c = CHR ''[''
          then (let ds = takeWhile is_digit r
                in case dropWhile is_digit r of
                     [] \<Rightarrow> []
                   | e # _ \<Rightarrow> if ds \<noteq> [] \<and> e = CHR '']'' then ''['' @ ds @ '']'' else [])
          else [])"

definition reCType_FindStringSubmatch :: "string \<Rightarrow> string list" where
  "reCType_FindStringSubmatch s =
     (let m = dropWhile (\<lambda>c. \<not> ctype_char c) s
      in if m = [] then []
         else
           let g1 = takeWhile ctype_char m;
               g2 = arraylen_group (dropWhile ctype_char m)
           in [g1 @ g2, g1, g2])"

text \<open>
  The two errors of \<^verbatim>\<open>goType\<close>, with the texts their messages quote:
  \<^verbatim>\<open>Cannot parse %q as ctype([arraylen])\<close> and
  \<^verbatim>\<open>Cannot parse %q as a ctype (invalid scalar part %q)\<close>.
\<close>

datatype TypeError = CannotParse string | InvalidScalarPart string string

text \<open>The \<^verbatim>\<open>switch parts[1]\<close>; \<open>None\<close> is its \<^verbatim>\<open>default\<close> branch.\<close>

definition scalar_switch :: "string \<Rightarrow> string option" where
  "scalar_switch p =
     (if p = ''RU1_3'' then Some ''Float8''
      else if p = ''R4'' then Some ''float32''
      else if p = ''R8'' then Some ''float64''
      else if p = ''I1'' then Some ''int8''
      else if p = ''U1'' \<or> p = ''CH'' \<or> p = ''X1'' then Some ''byte''
      else if p = ''I2'' then Some ''int16''
      else if p = ''U2'' \<or> p = ''X2'' then Some ''uint16''
      else if p = ''I4'' then Some ''int32''
      else if p = ''U4'' \<or> p = ''X4'' then Some ''uint32''
      else if p = ''I8'' then Some ''int64''
      else if p = ''U8'' then Some ''uint64''
      else None)"

text \<open>
  \<^verbatim>\<open>
  func goType(ctype string) (string, error) {
      parts := reCType.FindStringSubmatch(ctype)
      if len(parts) != 3 { return "", fmt.Errorf("Cannot parse %q as ctype([arraylen])", ctype) }
      var t string
      switch parts[1] { ... default: return "", fmt.Errorf("... (invalid scalar part %q)", ctype, parts[1]) }
      if parts[2] == "" { return t, nil }
      return fmt.Sprintf("%s%s", parts[2], t), nil
  }
  \<close>
  The result is the text of a Go type: \<^verbatim>\<open>uint32\<close>, or \<^verbatim>\<open>[12]uint32\<close> for an
  array of 12.
\<close>

definition goType :: "string \<Rightarrow> TypeError + string" where
  "goType ctype =
     (let parts = reCType_FindStringSubmatch ctype
      in if length parts \<noteq> 3 then Inl (CannotParse ctype)
         else case scalar_switch (parts ! 1) of
                None \<Rightarrow> Inl (InvalidScalarPart ctype (parts ! 1))
              | Some t \<Rightarrow> if parts ! 2 = [] then Inr t else Inr (parts ! 2 @ t))"

text \<open>
  The scalar codes of the protocol with the Go type each one stands for: an 8-bit
  scaled float, the two IEEE floats, and the signed and unsigned integers of 8 to 64
  bits.
\<close>

definition ctype_table :: "(string \<times> string) list" where
  "ctype_table =
     [(''RU1_3'', ''Float8''), (''R4'', ''float32''), (''R8'', ''float64''), (''I1'', ''int8''),
      (''U1'', ''byte''), (''CH'', ''byte''), (''X1'', ''byte''), (''I2'', ''int16''),
      (''U2'', ''uint16''), (''X2'', ''uint16''), (''I4'', ''int32''), (''U4'', ''uint32''),
      (''X4'', ''uint32''), (''I8'', ''int64''), (''U8'', ''uint64'')]"

section \<open>Class and id of a message\<close>

text \<open>
  \<^verbatim>\<open>
  type Hex uint64

  func (v *Hex) UnmarshalXML(d *xml.Decoder, start xml.StartElement) error {
      var f string
      if err := d.DecodeElement(&f, &start); err != nil { return err }
      vv, err := strconv.ParseUint(f, 0, 64)
      if err != nil { return err }
      *v = Hex(vv)
      return nil
  }
  \<close>
  The decoder is not part of the program: its result, an error or the text of the
  element, is the argument here.  The value returned is the one stored in \<^verbatim>\<open>*v\<close>.
\<close>

datatype 'e UnmarshalError = DecodeError 'e | ParseError NumError

definition Hex_UnmarshalXML :: "'e + string \<Rightarrow> 'e UnmarshalError + 64 word" where
  "Hex_UnmarshalXML decoded =
     (case decoded of
        Inl err \<Rightarrow> Inl (DecodeError err)
      | Inr f \<Rightarrow>
          (case ParseUint f 64 of
             (vv, Some err) \<Rightarrow> Inl (ParseError err)
           | (vv, None) \<Rightarrow> Inr (of_nat vv)))"

section \<open>Integer literals\<close>

text \<open>
  The integer literals of Go, which \<^verbatim>\<open>ParseUint\<close> with base 0 is documented to read:
  \<^verbatim>\<open>
  int_lit     = decimal_lit | binary_lit | octal_lit | hex_lit .
  decimal_lit = "0" | ( "1" ... "9" ) [ [ "_" ] decimal_digits ] .
  binary_lit  = "0" ( "b" | "B" ) [ "_" ] binary_digits .
  octal_lit   = "0" [ "o" | "O" ] [ "_" ] octal_digits .
  hex_lit     = "0" ( "x" | "X" ) [ "_" ] hex_digits .
  X_digits    = X_digit { [ "_" ] X_digit } .
  \<close>
  and the numbers they denote.
\<close>

definition is_bin :: "char \<Rightarrow> bool" where
  "is_bin c \<longleftrightarrow> c = CHR ''0'' \<or> c = CHR ''1''"

definition is_oct :: "char \<Rightarrow> bool" where
  "is_oct c \<longleftrightarrow> CHR ''0'' \<le> c \<and> c \<le> CHR ''7''"

definition is_hex :: "char \<Rightarrow> bool" where
  "is_hex c \<longleftrightarrow> is_digit c \<or> (CHR ''a'' \<le> c \<and> c \<le> CHR ''f'') \<or> (CHR ''A'' \<le> c \<and> c \<le> CHR ''F'')"

fun digits_sep :: "(char \<Rightarrow> bool) \<Rightarrow> string \<Rightarrow> bool" where
  "digits_sep D [] = False"
| "digits_sep D [c] = D c"
| "digits_sep D (c # c' # cs) =
     (D c \<and> (if c' = CHR ''_'' then digits_sep D cs else digits_sep D (c' # cs)))"

definition opt_sep_digits :: "(char \<Rightarrow> bool) \<Rightarrow> string \<Rightarrow> bool" where
  "opt_sep_digits D s =
     (case s of [] \<Rightarrow> False | c # r \<Rightarrow> if c = CHR ''_'' then digits_sep D r else digits_sep D s)"

definition int_lit :: "string \<Rightarrow> bool" where
  "int_lit s =
     (case s of
        [] \<Rightarrow> False
      | c # r \<Rightarrow>
          if c = CHR ''0'' then
            (case r of
               [] \<Rightarrow> True
             | p # r' \<Rightarrow>
                 if p = CHR ''b'' \<or> p = CHR ''B'' then opt_sep_digits is_bin r'
                 else if p = CHR ''o'' \<or> p = CHR ''O'' then opt_sep_digits is_oct r'
                 else if p = CHR ''x'' \<or> p = CHR ''X'' then opt_sep_digits is_hex r'
                 else opt_sep_digits is_oct r)
          else is_digit c \<and> (r = [] \<or> opt_sep_digits is_digit r))"

definition digit_value :: "char \<Rightarrow> nat" where
  "digit_value c =
     (if is_digit c then of_char c - of_char CHR ''0''
      else if CHR ''a'' \<le> c \<and> c \<le> CHR ''f'' then of_char c - of_char CHR ''a'' + 10
      else of_char c - of_char CHR ''A'' + 10)"

fun digits_value :: "nat \<Rightarrow> nat \<Rightarrow> string \<Rightarrow> nat" where
  "digits_value base n [] = n"
| "digits_value base n (c # cs) =
     (if c = CHR ''_'' then digits_value base n cs
      else digits_value base (n * base + digit_value c) cs)"

definition int_lit_value :: "string \<Rightarrow> nat" where
  "int_lit_value s =
     (case s of
        [] \<Rightarrow> 0
      | c # r \<Rightarrow>
          if c = CHR ''0'' then
            (case r of
               [] \<Rightarrow> 0
             | p # r' \<Rightarrow>
                 if p = CHR ''b'' \<or> p = CHR ''B'' then digits_value 2 0 r'
                 else if p = CHR ''o'' \<or> p = CHR ''O'' then digits_value 8 0 r'
                 else if p = CHR ''x'' \<or> p = CHR ''X'' then digits_value 16 0 r'
                 else digits_value 8 0 r)
          else digits_value 10 0 s)"

section \<open>The schema model\<close>

text \<open>
  The structs of msggen.go are records.  A pointer is an address; the objects live in a
  heap with one table per struct type, as a \<^verbatim>\<open>*Block\<close> never points to a
  \<^verbatim>\<open>BitDef\<close>.  An address that a table does not hold stands for \<^verbatim>\<open>nil\<close>: using
  it panics.  The two back-references are \<^verbatim>\<open>nil\<close> until linked, hence optional.
\<close>

type_synonym ptr = nat

type_synonym Hex = "64 word"

record Message =
  Message_Name :: string
  Message_Type :: string
  Message_Description :: string
  Message_Comment :: string
  Message_Firmware :: string
  Message_Class :: Hex
  Message_Id :: Hex
  Message_Length :: string
  Message_Blocks :: "ptr list"

record Block =
  Block_Cardinality :: string
  Block_CountField :: string
  Block_Offset :: string
  Block_Name :: string
  Block_Type :: string
  Block_Comment :: string
  Block_Scale :: string
  Block_Unit :: string
  Block_Bitfield :: "ptr list"
  Block_Nested :: "ptr list"
  Block_Message :: "ptr option"

record BitDef =
  BitDef_Index :: string
  BitDef_Type :: string
  BitDef_Name :: string
  BitDef_Description :: string
  BitDef_Field :: "ptr option"

record Definitions =
  Definitions_Message :: "ptr list"

record heap =
  messages :: "ptr \<rightharpoonup> Message"
  blocks :: "ptr \<rightharpoonup> Block"
  bitdefs :: "ptr \<rightharpoonup> BitDef"

section \<open>The linker\<close>

text \<open>
  The linker can stop in two ways without finishing: it dereferences \<^verbatim>\<open>nil\<close>, or its
  recursion never ends (a Block nested in itself), which exhausts the stack.  The
  functions take the stack depth that is left as their first argument.
\<close>

datatype panic = NilPointer | StackExhausted

text \<open>\<^verbatim>\<open>for _, v := range xs { body }\<close>, leaving at the first panic.\<close>

fun for_range :: "'a list \<Rightarrow> ('a \<Rightarrow> heap \<Rightarrow> panic + heap) \<Rightarrow> heap \<Rightarrow> panic + heap" where
  "for_range [] body h = Inr h"
| "for_range (v # vs) body h =
     (case body v h of Inl e \<Rightarrow> Inl e | Inr h' \<Rightarrow> for_range vs body h')"

text \<open>The assignments \<^verbatim>\<open>b.Message = m\<close> and \<^verbatim>\<open>v.Field = b\<close>.\<close>

definition set_Message :: "ptr \<Rightarrow> ptr \<Rightarrow> heap \<Rightarrow> panic + heap" where
  "set_Message b m h =
     (case blocks h b of
        None \<Rightarrow> Inl NilPointer
      | Some blk \<Rightarrow> Inr (h\<lparr>blocks := (blocks h)(b \<mapsto> blk\<lparr>Block_Message := Some m\<rparr>)\<rparr>))"

definition set_Field :: "ptr \<Rightarrow> ptr \<Rightarrow> heap \<Rightarrow> panic + heap" where
  "set_Field v b h =
     (case bitdefs h v of
        None \<Rightarrow> Inl NilPointer
      | Some bd \<Rightarrow> Inr (h\<lparr>bitdefs := (bitdefs h)(v \<mapsto> bd\<lparr>BitDef_Field := Some b\<rparr>)\<rparr>))"

text \<open>
  \<^verbatim>\<open>
  func (b *Block) Link(m *Message) {
      b.Message = m
      for _, v := range b.Bitfield { v.Field = b }
      for _, v := range b.Nested { v.Link(m) }
  }
  \<close>
\<close>

fun Block_Link :: "nat \<Rightarrow> ptr \<Rightarrow> ptr \<Rightarrow> heap \<Rightarrow> panic + heap" where
  "Block_Link 0 b m h = Inl StackExhausted"
| "Block_Link (Suc depth) b m h =
     (case set_Message b m h of
        Inl e \<Rightarrow> Inl e
      | Inr h1 \<Rightarrow>
          (case blocks h1 b of
             None \<Rightarrow> Inl NilPointer
           | Some blk \<Rightarrow>
               (case for_range (Block_Bitfield blk) (\<lambda>v. set_Field v b) h1 of
                  Inl e \<Rightarrow> Inl e
                | Inr h2 \<Rightarrow> for_range (Block_Nested blk) (\<lambda>v. Block_Link depth v m) h2)))"

text \<open>
  \<^verbatim>\<open>func (d *Message) Link() { for _, v := range d.Blocks { v.Link(d) } }\<close>
\<close>

definition Message_Link :: "nat \<Rightarrow> ptr \<Rightarrow> heap \<Rightarrow> panic + heap" where
  "Message_Link depth d h =
     (case messages h d of
        None \<Rightarrow> Inl NilPointer
      | Some msg \<Rightarrow> for_range (Message_Blocks msg) (\<lambda>v. Block_Link depth v d) h)"

text \<open>
  \<^verbatim>\<open>func (d *Definitions) Link() { for _, v := range d.Message { v.Link() } }\<close>
\<close>

definition Definitions_Link :: "nat \<Rightarrow> Definitions \<Rightarrow> heap \<Rightarrow> panic + heap" where
  "Definitions_Link depth d h = for_range (Definitions_Message d) (\<lambda>v. Message_Link depth v) h"

section \<open>What the linker writes, and where\<close>

text \<open>
  The properties of the linker are stated with four notions that are read off a heap
  without changing it: the graph is \<^emph>\<open>well formed\<close> to a depth (no \<^verbatim>\<open>nil\<close>
  pointer, nesting no deeper than the depth); the list of \<^emph>\<open>assignments\<close> the
  traversal makes, in order; the objects \<^emph>\<open>owned\<close>, which are the targets of these
  assignments; and the heap with its back-references \<^emph>\<open>erased\<close>.
\<close>

fun Block_wf :: "nat \<Rightarrow> heap \<Rightarrow> ptr \<Rightarrow> bool" where
  "Block_wf 0 h b = False"
| "Block_wf (Suc depth) h b =
     (case blocks h b of
        None \<Rightarrow> False
      | Some blk \<Rightarrow>
          list_all (\<lambda>v. bitdefs h v \<noteq> None) (Block_Bitfield blk) \<and>
          list_all (Block_wf depth h) (Block_Nested blk))"

definition Message_wf :: "nat \<Rightarrow> heap \<Rightarrow> ptr \<Rightarrow> bool" where
  "Message_wf depth h d =
     (case messages h d of
        None \<Rightarrow> False
      | Some msg \<Rightarrow> list_all (Block_wf depth h) (Message_Blocks msg))"

definition Definitions_wf :: "nat \<Rightarrow> heap \<Rightarrow> Definitions \<Rightarrow> bool" where
  "Definitions_wf depth h d = list_all (Message_wf depth h) (Definitions_Message d)"

datatype assignment = SetMessage ptr ptr | SetField ptr ptr

fun apply_write :: "assignment \<Rightarrow> heap \<Rightarrow> heap" where
  "apply_write (SetMessage b m) h =
     (case blocks h b of
        None \<Rightarrow> h
      | Some blk \<Rightarrow> h\<lparr>blocks := (blocks h)(b \<mapsto> blk\<lparr>Block_Message := Some m\<rparr>)\<rparr>)"
| "apply_write (SetField v b) h =
     (case bitdefs h v of
        None \<Rightarrow> h
      | Some bd \<Rightarrow> h\<lparr>bitdefs := (bitdefs h)(v \<mapsto> bd\<lparr>BitDef_Field := Some b\<rparr>)\<rparr>)"

fun Block_writes :: "nat \<Rightarrow> heap \<Rightarrow> ptr \<Rightarrow> ptr \<Rightarrow> assignment list" where
  "Block_writes 0 h b m = []"
| "Block_writes (Suc depth) h b m =
     (case blocks h b of
        None \<Rightarrow> []
      | Some blk \<Rightarrow>
          SetMessage b m # map (\<lambda>v. SetField v b) (Block_Bitfield blk) @
          concat (map (\<lambda>v. Block_writes depth h v m) (Block_Nested blk)))"

definition Message_writes :: "nat \<Rightarrow> heap \<Rightarrow> ptr \<Rightarrow> assignment list" where
  "Message_writes depth h d =
     (case messages h d of
        None \<Rightarrow> []
      | Some msg \<Rightarrow> concat (map (\<lambda>v. Block_writes depth h v d) (Message_Blocks msg)))"

definition Definitions_writes :: "nat \<Rightarrow> heap \<Rightarrow> Definitions \<Rightarrow> assignment list" where
  "Definitions_writes depth h d = concat (map (Message_writes depth h) (Definitions_Message d))"

datatype obj = BlockObj ptr | BitDefObj ptr

fun target :: "assignment \<Rightarrow> obj" where
  "target (SetMessage b m) = BlockObj b"
| "target (SetField v b) = BitDefObj v"

text \<open>
  The Blocks and BitDefs of the graph, once for every path that leads to them.  In the
  tree that the decoder builds every object is owned once, so the list is distinct.
\<close>

definition Definitions_owned :: "nat \<Rightarrow> heap \<Rightarrow> Definitions \<Rightarrow> obj list" where
  "Definitions_owned depth h d = map target (Definitions_writes depth h d)"

definition erase_backrefs :: "heap \<Rightarrow> heap" where
  "erase_backrefs h =
     h\<lparr>blocks := map_option (\<lambda>blk. blk\<lparr>Block_Message := None\<rparr>) \<circ> blocks h,
       bitdefs := map_option (\<lambda>bd. bd\<lparr>BitDef_Field := None\<rparr>) \<circ> bitdefs h\<rparr>"

text \<open>
  Message \<open>m\<close> encloses Block \<open>b\<close>: \<open>b\<close> is one of its Blocks, or is nested, to any
  depth, in one of them.
\<close>

inductive encloses :: "heap \<Rightarrow> ptr \<Rightarrow> ptr \<Rightarrow> bool" for h :: heap and m :: ptr where
  top: "messages h m = Some msg \<Longrightarrow> b \<in> set (Message_Blocks msg) \<Longrightarrow> encloses h m b"
| nested: "encloses h m p \<Longrightarrow> blocks h p = Some blk \<Longrightarrow> b \<in> set (Block_Nested blk) \<Longrightarrow> encloses h m b"

text \<open>The value last assigned to a back-reference by a list of assignments.\<close>

fun last_Message :: "assignment list \<Rightarrow> ptr \<Rightarrow> ptr option" where
  "last_Message [] p = None"
| "last_Message (w # ws) p =
     (case last_Message ws p of
        Some m \<Rightarrow> Some m
      | None \<Rightarrow> (case w of SetMessage b m \<Rightarrow> if b = p then Some m else None | SetField v b \<Rightarrow> None))"

fun last_Field :: "assignment list \<Rightarrow> ptr \<Rightarrow> ptr option" where
  "last_Field [] p = None"
| "last_Field (w # ws) p =
     (case last_Field ws p of
        Some b \<Rightarrow> Some b
      | None \<Rightarrow> (case w of SetField v b \<Rightarrow> if v = p then Some b else None | SetMessage b m \<Rightarrow> None))"

text \<open>
  A small graph for trying the linker: one message with a bitfield Block and a repeated
  group that nests a scalar Block.
\<close>

definition example_heap :: heap where
  "example_heap =
     \<lparr>messages = [10 \<mapsto> \<lparr>Message_Name = ''NAV-STATUS'', Message_Type = ''Periodic'',
          Message_Description = [], Message_Comment = [], Message_Firmware = [],
          Message_Class = 1, Message_Id = 3, Message_Length = ''4 + 2*N'',
          Message_Blocks = [20, 21]\<rparr>],
      blocks = [20 \<mapsto> \<lparr>Block_Cardinality = [], Block_CountField = [], Block_Offset = ''0'',
          Block_Name = ''flags'', Block_Type = ''X1'', Block_Comment = [], Block_Scale = [],
          Block_Unit = [], Block_Bitfield = [30], Block_Nested = [], Block_Message = None\<rparr>,
        21 \<mapsto> \<lparr>Block_Cardinality = ''repeated'', Block_CountField = ''N'', Block_Offset = [],
          Block_Name = [], Block_Type = [], Block_Comment = [], Block_Scale = [],
          Block_Unit = [], Block_Bitfield = [], Block_Nested = [22], Block_Message = None\<rparr>,
        22 \<mapsto> \<lparr>Block_Cardinality = [], Block_CountField = [], Block_Offset = ''4'',
          Block_Name = ''cno'', Block_Type = ''U2'', Block_Comment = [], Block_Scale = [],
          Block_Unit = [], Block_Bitfield = [], Block_Nested = [], Block_Message = None\<rparr>],
      bitdefs = [30 \<mapsto> \<lparr>BitDef_Index = ''0'', BitDef_Type = ''U1'', BitDef_Name = ''gpsFixOk'',
          BitDef_Description = [], BitDef_Field = None\<rparr>]\<rparr>"

definition example_definitions :: Definitions where
  "example_definitions = \<lparr>Definitions_Message = [10]\<rparr>"

section \<open>Properties of the naming normalizer\<close>

lemma Split_no_sep: "sep \<notin> set s \<Longrightarrow> Split s sep = [s]"
  by (induction s) auto

lemma Split_append_sep:
  "sep \<notin> set a \<Longrightarrow> Split (a @ sep # rest) sep = a # Split rest sep"
  by (induction a) auto


lemma lower_byte_hyphen: "lower_byte c = CHR ''-'' \<longleftrightarrow> c = CHR ''-''"
proof (cases "CHR ''A'' \<le> c \<and> c \<le> CHR ''Z''")
  case True
  then have r: "65 \<le> (of_char c :: nat)" "(of_char c :: nat) \<le> 90"
    by (simp_all add: less_eq_char_def)
  then have "(of_char (lower_byte c) :: nat) = of_char c + 32"
    using True by (simp add: lower_byte_def)
  then have "(of_char (lower_byte c) :: nat) \<noteq> of_char CHR ''-''"
    using r by simp
  then have "lower_byte c \<noteq> CHR ''-''" by auto
  moreover have "c \<noteq> CHR ''-''" using r by auto
  ultimately show ?thesis by simp
next
  case False
  then show ?thesis by (auto simp: lower_byte_def)
qed

lemma ToLower_hyphen_free: "CHR ''-'' \<notin> set s \<Longrightarrow> CHR ''-'' \<notin> set (ToLower s)"
  unfolding ToLower_def using lower_byte_hyphen by (metis (no_types) imageE list.set_map)







text \<open>
  Claim C10.  A name without a hyphen is a single segment, and the single segment is
  the leading one that is dropped: the result is the empty string.
\<close>

theorem msgtypename_no_hyphen:
  "CHR ''-'' \<notin> set s \<Longrightarrow> msgtypename s = []"
  by (simp add: msgtypename_def Split_no_sep ToLower_hyphen_free)

theorem msgtypename_no_hyphen_witness:
  "CHR ''-'' \<notin> set ''POSLLH'' \<and> msgtypename ''POSLLH'' = []"
  using msgtypename_no_hyphen [of "''POSLLH''"] by simp

section \<open>Properties of ParseUint and of the bit-mask resolver\<close>

lemmas char_eval = less_eq_char_def char_of_def bit_Suc_0_iff
lemmas pu_defs = ParseUint_def base_prefix_def lower_def digit_of_def underscoreOK_def char_eval
lemmas mask_defs = mask_str_def Sprintf_0x_def fmt_x_def hex_digit_def

lemma or_32_nat: "(n::nat) OR 32 = (if odd (n div 32) then n else n + 32)"
proof -
  have "n OR 32 = set_bit 5 n"
    by (simp add: set_bit_eq_or push_bit_of_1)
  also have "\<dots> = n + of_bool (\<not> bit n 5) * 2 ^ 5"
    by (rule set_bit_eq)
  also have "\<dots> = (if odd (n div 32) then n else n + 32)"
    by (simp add: bit_iff_odd)
  finally show ?thesis .
qed

lemma of_char_lower:
  "(of_char (lower c) :: nat) = (if odd (of_char c div 32 :: nat) then of_char c else of_char c + 32)"
proof -
  let ?n = "of_char c :: nat"
  have "?n + 32 < 256" if "even (?n div 32)"
  proof -
    have "?n < 8 * 32" by simp
    then have "?n div 32 < 8" by (simp only: div_less_iff_less_mult zero_less_numeral)
    moreover have "?n div 32 \<noteq> 7" using that by auto
    ultimately have "?n div 32 < 7" by simp
    then have "?n < 7 * 32" by (simp only: div_less_iff_less_mult zero_less_numeral)
    then show ?thesis by simp
  qed
  then show ?thesis
    by (simp add: lower_def or_32_nat)
qed

lemma char_eq_nat: "c = d \<longleftrightarrow> (of_char c :: nat) = of_char d"
  by simp

lemma lower_x: "lower c = CHR ''x'' \<longleftrightarrow> c = CHR ''x'' \<or> c = CHR ''X''"
  unfolding char_eq_nat [of _ "CHR ''x''"] char_eq_nat [of _ "CHR ''X''"] of_char_lower
  by auto
lemma lower_b: "lower c = CHR ''b'' \<longleftrightarrow> c = CHR ''b'' \<or> c = CHR ''B''"
  unfolding char_eq_nat [of _ "CHR ''b''"] char_eq_nat [of _ "CHR ''B''"] of_char_lower
  by auto
lemma lower_o: "lower c = CHR ''o'' \<longleftrightarrow> c = CHR ''o'' \<or> c = CHR ''O''"
  unfolding char_eq_nat [of _ "CHR ''o''"] char_eq_nat [of _ "CHR ''O''"] of_char_lower
  by auto

lemma scan_Inl:
  "scan base cutoff maxVal cs n us = Inl (v, e) \<Longrightarrow>
     (e = ErrSyntax \<and> v = 0) \<or> (e = ErrRange \<and> v = maxVal)"
  by (induction cs arbitrary: n us) (auto simp: Let_def split: if_splits option.splits)

lemma scan_Inr_chars:
  "scan base cutoff maxVal cs n us = Inr r \<Longrightarrow> c \<in> set cs \<Longrightarrow>
     c = CHR ''_'' \<or> (\<exists>d. digit_of c = Some d \<and> d < base)"
  by (induction cs arbitrary: n us) (auto simp: Let_def split: if_splits option.splits)

lemma digit_of_colon: "digit_of CHR '':'' = None"
  by (simp add: digit_of_def lower_def char_eval)

lemma base_prefix_cases:
  "base_prefix s = (b, ds) \<Longrightarrow> s \<noteq> [] \<Longrightarrow>
     (b = 10 \<and> ds = s) \<or> (\<exists>p. s = p @ ds \<and> set p \<subseteq> set ''0bBoOxX'')"
proof -
  assume bp: "base_prefix s = (b, ds)" and ne: "s \<noteq> []"
  show ?thesis
  proof (cases "s ! 0 = CHR ''0''")
    case False
    then show ?thesis using bp by (simp add: base_prefix_def)
  next
    case True
    then obtain t where s: "s = CHR ''0'' # t" using ne by (cases s) auto
    show ?thesis
    proof (cases "ds = drop 1 s")
      case True
      then have "s = ''0'' @ ds" using s by simp
      then show ?thesis by (metis list.set_intros(1) set_ConsD empty_iff empty_set subsetI)
    next
      case False
      then have ds: "ds = drop 2 s" and l: "3 \<le> length s"
        and lw: "lower (s ! 1) = CHR ''b'' \<or> lower (s ! 1) = CHR ''o'' \<or> lower (s ! 1) = CHR ''x''"
        using bp True by (auto simp: base_prefix_def split: if_splits)
      then obtain c u where t: "t = c # u" using s by (cases t) auto
      have "s = [CHR ''0'', c] @ ds" using s t ds by simp
      moreover have "c \<in> set ''bBoOxX''" using lw s t by (auto simp: lower_b lower_o lower_x)
      ultimately show ?thesis by (intro disjI2 exI [of _ "[CHR ''0'', c]"]) auto
    qed
  qed
qed

lemma ParseUint_ok_no_colon:
  assumes "ParseUint s bitSize = (v, None)"
  shows "CHR '':'' \<notin> set s"
proof
  assume c: "CHR '':'' \<in> set s"
  then have ne: "s \<noteq> []" by auto
  obtain b ds where bp: "base_prefix s = (b, ds)" by (cases "base_prefix s")
  from assms ne bp obtain mx cut r where sc: "scan b cut mx ds 0 False = Inr r"
    by (auto simp: ParseUint_def Let_def split: if_splits sum.splits prod.splits)
  have "CHR '':'' \<in> set ds"
    using base_prefix_cases [OF bp ne] c by auto
  from scan_Inr_chars [OF sc this] show False by (simp add: digit_of_colon)
qed

lemma ParseUint_error_value:
  assumes "ParseUint s 8 = (v, Some e)"
  shows "(e = ErrSyntax \<and> v = 0) \<or> (e = ErrRange \<and> v = 255)"
proof (cases "s = []")
  case True
  then show ?thesis using assms by (simp add: ParseUint_def)
next
  case False
  obtain b ds where bp: "base_prefix s = (b, ds)" by (cases "base_prefix s")
  show ?thesis
    using assms False bp
    by (auto simp: ParseUint_def Let_def split: if_splits sum.splits prod.splits dest!: scan_Inl)
qed

lemma Split_nonempty: "Split s sep \<noteq> []"
  by (induction s) (auto split: list.splits)

lemma Split_pieces_all: "\<forall>p\<in>set (Split s sep). set p \<subseteq> set s \<and> sep \<notin> set p"
  by (induction s) (auto split: list.splits)

lemma Split_pieces_subset: "p \<in> set (Split s sep) \<Longrightarrow> set p \<subseteq> set s"
  using Split_pieces_all by blast

lemma Split_pieces_no_sep: "p \<in> set (Split s sep) \<Longrightarrow> sep \<notin> set p"
  using Split_pieces_all by blast

lemma Split_two: "sep \<notin> set a \<Longrightarrow> sep \<notin> set b \<Longrightarrow> Split (a @ sep # b) sep = [a, b]"
  by (simp add: Split_append_sep Split_no_sep)

lemma Split_two_conv:
  assumes "Split s sep = [a, b]"
  shows "s = a @ sep # b"
  using assms
proof (induction s arbitrary: a)
  case Nil
  then show ?case by simp
next
  case (Cons c cs)
  show ?case
  proof (cases "c = sep")
    case True
    then have "a = []" "Split cs sep = [b]" using Cons.prems by auto
    moreover have "cs = b"
    proof (rule ccontr)
      assume "cs \<noteq> b"
      then have "sep \<in> set cs" using \<open>Split cs sep = [b]\<close> Split_no_sep [of sep cs] by auto
      then obtain u v where "cs = u @ sep # v" "sep \<notin> set u" by (meson split_list_first)
      then show False using \<open>Split cs sep = [b]\<close> by (simp add: Split_append_sep Split_nonempty)
    qed
    ultimately show ?thesis using True by simp
  next
    case False
    then obtain p where "Split cs sep = [p, b]" "a = c # p"
      using Cons.prems by (cases "Split cs sep") auto
    then show ?thesis using Cons.IH by simp
  qed
qed

lemma scan_no_digit:
  assumes "\<forall>c\<in>set cs. \<not> is_digit c"
  shows "scan 10 cutoff maxVal cs n us = Inl (0, ErrSyntax) \<or>
         (scan 10 cutoff maxVal cs n us = Inr (n, us \<or> cs \<noteq> []) \<and> set cs \<subseteq> {CHR ''_''})"
  using assms
proof (induction cs arbitrary: us)
  case Nil
  then show ?case by simp
next
  case (Cons c cs)
  show ?case
  proof (cases "c = CHR ''_''")
    case True
    then show ?thesis using Cons.IH [of True] Cons.prems by auto
  next
    case False
    have "\<not> (CHR ''0'' \<le> c \<and> c \<le> CHR ''9'')" using Cons.prems by (simp add: is_digit_def)
    then have "digit_of c = None \<or> (\<exists>d. digit_of c = Some d \<and> 10 \<le> d)"
      by (auto simp: digit_of_def)
    then have "scan 10 cutoff maxVal (c # cs) n us = Inl (0, ErrSyntax)"
      using False by auto
    then show ?thesis by simp
  qed
qed

lemma underscoreOK_underscores:
  assumes "s \<noteq> []" "set s \<subseteq> {CHR ''_''}"
  shows "\<not> underscoreOK s"
proof -
  obtain t where s: "s = CHR ''_'' # t" using assms by (cases s) auto
  then show ?thesis
    by (simp add: underscoreOK_def less_eq_char_def)
qed

lemma ParseUint_no_digit:
  assumes "\<forall>c\<in>set s. \<not> is_digit c"
  shows "ParseUint s 8 = (0, Some ErrSyntax)"
proof (cases "s = []")
  case True
  then show ?thesis by (simp add: ParseUint_def)
next
  case False
  then have "s ! 0 \<in> set s" by simp
  then have "\<not> is_digit (s ! 0)" using assms by blast
  then have "s ! 0 \<noteq> CHR ''0''" by (auto simp: is_digit_def less_eq_char_def)
  then have bp: "base_prefix s = (10, s)" by (simp add: base_prefix_def)
  let ?cut = "(2 ^ 64 - 1) div 10 + 1 :: nat" and ?mx = "(2 ^ 8 mod 2 ^ 64 + (2 ^ 64 - 1)) mod 2 ^ 64 :: nat"
  from scan_no_digit [OF assms, of ?cut ?mx 0 False]
  show ?thesis
  proof
    assume "scan 10 ?cut ?mx s 0 False = Inl (0, ErrSyntax)"
    then show ?thesis using False bp by (simp add: ParseUint_def)
  next
    assume a: "scan 10 ?cut ?mx s 0 False = Inr (0, False \<or> s \<noteq> []) \<and> set s \<subseteq> {CHR ''_''}"
    then have "\<not> underscoreOK s" using False underscoreOK_underscores by blast
    then show ?thesis using False bp a by (simp add: ParseUint_def)
  qed
qed

lemma sint_word_of_int_small:
  "0 \<le> x \<Longrightarrow> x < 2 ^ 63 \<Longrightarrow> sint (word_of_int x :: 64 word) = x"
  by (simp add: sint_sbintrunc' signed_take_bit_int_eq_self)

lemma word_shift_minus_1: "(push_bit k 1 - 1 :: 64 word) = word_of_int (2 ^ k - 1)"
  by (simp add: push_bit_of_1)

lemma sint_range_mask:
  assumes "hi \<le> 62" "lo \<le> hi"
  shows "sint ((push_bit (hi + 1) 1 - 1) XOR (push_bit lo 1 - 1) :: 64 word)
         = ((2::int) ^ (hi + 1) - 1) XOR (2 ^ lo - 1)"
proof -
  let ?a = "(2::int) ^ (hi + 1) - 1" and ?b = "(2::int) ^ lo - 1"
  have le: "(2::int) ^ (hi + 1) \<le> 2 ^ 63"
    using assms by (intro power_increasing) simp_all
  have lo: "(2::int) ^ lo \<le> 2 ^ 63"
    using assms by (intro power_increasing) simp_all
  have a: "0 \<le> ?a" "?a < 2 ^ 63" using le by simp_all
  have b: "0 \<le> ?b" "?b < 2 ^ 63" using lo by simp_all
  have "0 \<le> ?a XOR ?b" using a b by simp
  moreover have "?a XOR ?b < 2 ^ 63" using a b by (intro XOR_upper) simp_all
  ultimately have "sint (word_of_int (?a XOR ?b) :: 64 word) = ?a XOR ?b"
    by (rule sint_word_of_int_small)
  then show ?thesis
    by (simp only: word_shift_minus_1 word_wi_log_defs)
qed

lemma sint_bit_mask:
  assumes "i \<le> 62"
  shows "sint (push_bit i 1 :: 64 word) = 2 ^ i"
proof -
  have "(2::int) ^ i < 2 ^ 63"
    using assms by (intro power_strict_increasing) simp_all
  then have "sint (word_of_int (2 ^ i) :: 64 word) = 2 ^ i"
    by (intro sint_word_of_int_small) simp_all
  then show ?thesis by (simp add: push_bit_of_1)
qed

lemma mask_str_single:
  "length (Split s CHR '':'') \<noteq> 2 \<Longrightarrow> mask_str s = Sprintf_0x (push_bit (fst (ParseUint s 8)) 1)"
  by (simp add: mask_str_def)

lemma mask_str_range:
  "Split s CHR '':'' = [a, b] \<Longrightarrow>
   mask_str s = Sprintf_0x ((push_bit ((fst (ParseUint a 8) + 1) mod 2 ^ 64) 1 - 1)
                            XOR (push_bit (fst (ParseUint b 8)) 1 - 1))"
  by (simp add: mask_str_def)

lemma fmt_x_nat: "fmt_x (int n) = fmt_hex n"
  by (simp add: fmt_x_def)

lemma mask_str_0: "mask_str ''0'' = ''0x1''" by (simp add: pu_defs mask_defs)
lemma mask_str_255: "mask_str ''255'' = ''0x0''" by (simp add: pu_defs mask_defs)
lemma ParseUint_0: "ParseUint ''0'' 8 = (0, None)" by (simp add: pu_defs)
lemma ParseUint_255: "ParseUint ''255'' 8 = (255, None)" by (simp add: pu_defs)

text \<open>
  Claim C3, as the code has it.  The four masks of the specification are as stated.  A
  range \<open>hi:lo\<close> of two texts that parse, with \<open>lo \<le> hi\<close> and \<open>hi \<le> 62\<close>, gives the
  hexadecimal rendering of \<open>(2 ^ (hi + 1) - 1) XOR (2 ^ lo - 1)\<close>, and a single index
  \<open>i \<le> 62\<close> that parses gives the rendering of \<open>2 ^ i\<close>, both as unsigned numbers.
  The bound is where the signed 64-bit arithmetic of the code still agrees with the
  unsigned mask.
\<close>

theorem mask_str_examples_and_formula:
  "mask_str ''3'' = ''0x8'' \<and> mask_str ''0'' = ''0x1'' \<and>
   mask_str ''7:4'' = ''0xf0'' \<and> mask_str ''0:0'' = ''0x1'' \<and>
   (\<forall>a b hi lo. ParseUint a 8 = (hi, None) \<and> ParseUint b 8 = (lo, None) \<and> lo \<le> hi \<and> hi \<le> 62 \<longrightarrow>
      mask_str (a @ '':'' @ b) = ''0x'' @ fmt_hex ((2 ^ (hi + 1) - 1) XOR (2 ^ lo - 1))) \<and>
   (\<forall>s i. ParseUint s 8 = (i, None) \<and> i \<le> 62 \<longrightarrow> mask_str s = ''0x'' @ fmt_hex (2 ^ i))"
proof (intro conjI allI impI)
  show "mask_str ''3'' = ''0x8''" by (simp add: pu_defs mask_defs)
  show "mask_str ''0'' = ''0x1''" by (simp add: pu_defs mask_defs)
  show "mask_str ''7:4'' = ''0xf0''" by (simp add: pu_defs mask_defs)
  show "mask_str ''0:0'' = ''0x1''" by (simp add: pu_defs mask_defs)
next
  fix a b hi lo
  assume h: "ParseUint a 8 = (hi, None) \<and> ParseUint b 8 = (lo, None) \<and> lo \<le> hi \<and> hi \<le> 62"
  then have "CHR '':'' \<notin> set a" "CHR '':'' \<notin> set b"
    using ParseUint_ok_no_colon by blast+
  then have sp: "Split (a @ '':'' @ b) CHR '':'' = [a, b]"
    by (simp add: Split_two)
  have "(2::int) ^ (hi + 1) - 1 XOR 2 ^ lo - 1 = int ((2 ^ (hi + 1) - 1) XOR (2 ^ lo - 1))"
    by (simp add: of_nat_xor_eq of_nat_diff)
  then have "sint ((push_bit (hi + 1) 1 - 1) XOR (push_bit lo 1 - 1) :: 64 word)
      = int ((2 ^ (hi + 1) - 1) XOR (2 ^ lo - 1))"
    using sint_range_mask [of hi lo] h by simp
  moreover have "(hi + 1) mod 2 ^ 64 = hi + 1" using h by simp
  ultimately show "mask_str (a @ '':'' @ b) = ''0x'' @ fmt_hex ((2 ^ (hi + 1) - 1) XOR (2 ^ lo - 1))"
    using h by (simp only: mask_str_range [OF sp] Sprintf_0x_def fst_conv fmt_x_nat)
next
  fix s i
  assume h: "ParseUint s 8 = (i, None) \<and> i \<le> 62"
  then have "CHR '':'' \<notin> set s" using ParseUint_ok_no_colon by blast
  then have sp: "length (Split s CHR '':'') \<noteq> 2" by (simp add: Split_no_sep)
  have "sint (push_bit i 1 :: 64 word) = int (2 ^ i)" using sint_bit_mask h by simp
  then show "mask_str s = ''0x'' @ fmt_hex (2 ^ i)"
    using h by (simp only: mask_str_single [OF sp] Sprintf_0x_def fst_conv fmt_x_nat)
qed

theorem mask_str_examples_and_formula_witness:
  "mask_str ''0x1f:0b100'' = ''0xfffffff0'' \<and> mask_str ''62'' = ''0x4000000000000000''"
proof -
  have a: "ParseUint ''0x1f'' 8 = (31, None) \<and> ParseUint ''0b100'' 8 = (4, None) \<and>
           (4::nat) \<le> 31 \<and> (31::nat) \<le> 62"
    and c: "ParseUint ''62'' 8 = (62, None) \<and> (62::nat) \<le> 62"
    by (simp_all add: pu_defs)
  have r: "\<forall>a b hi lo. ParseUint a 8 = (hi, None) \<and> ParseUint b 8 = (lo, None) \<and> lo \<le> hi \<and> hi \<le> 62 \<longrightarrow>
      mask_str (a @ '':'' @ b) = ''0x'' @ fmt_hex ((2 ^ (hi + 1) - 1) XOR (2 ^ lo - 1))"
    and i: "\<forall>s i. ParseUint s 8 = (i, None) \<and> i \<le> 62 \<longrightarrow> mask_str s = ''0x'' @ fmt_hex (2 ^ i)"
    using mask_str_examples_and_formula by blast+
  have "mask_str (''0x1f'' @ '':'' @ ''0b100'') = ''0x'' @ fmt_hex ((2 ^ (31 + 1) - 1) XOR (2 ^ 4 - 1))"
    using r a by blast
  moreover have "mask_str ''62'' = ''0x'' @ fmt_hex (2 ^ 62)"
    using i c by blast
  ultimately show ?thesis by (simp add: hex_digit_def)
qed

text \<open>
  Against claim C3 as stated: \<open>63\<close> parses, and the mask of bit 63 would be rendered
  \<open>0x8000000000000000\<close>; the code shifts a signed 64-bit 1 into the sign bit and
  prints a negative number.
\<close>

theorem mask_str_63_counterexample:
  "ParseUint ''63'' 8 = (63, None) \<and> mask_str ''63'' = ''0x-8000000000000000'' \<and>
   mask_str ''63'' \<noteq> ''0x'' @ fmt_hex (2 ^ 63)"
  by (simp add: pu_defs mask_defs)

lemma ParseUint_8_errors:
  "snd (ParseUint s 8) = Some e \<Longrightarrow>
     (e = ErrSyntax \<and> fst (ParseUint s 8) = 0) \<or> (e = ErrRange \<and> fst (ParseUint s 8) = 255)"
  using ParseUint_error_value [of s "fst (ParseUint s 8)" e] by (cases "ParseUint s 8") simp

lemma Split_pair_parts:
  assumes "Split s CHR '':'' = [a, b]"
  shows "CHR '':'' \<notin> set a" "CHR '':'' \<notin> set b"
  using Split_pieces_no_sep [of a s "CHR '':''"] Split_pieces_no_sep [of b s "CHR '':''"] assms
  by simp_all

lemma mask_str_pair:
  assumes "CHR '':'' \<notin> set a" "CHR '':'' \<notin> set b"
  shows "mask_str (a @ '':'' @ b) =
     Sprintf_0x ((push_bit ((fst (ParseUint a 8) + 1) mod 2 ^ 64) 1 - 1)
                 XOR (push_bit (fst (ParseUint b 8)) 1 - 1))"
proof -
  have "Split (a @ '':'' @ b) CHR '':'' = [a, b]" using assms by (simp add: Split_two)
  then show ?thesis by (rule mask_str_range)
qed

lemma mask_str_pair_cong:
  assumes "Split s CHR '':'' = [a, b]" "CHR '':'' \<notin> set a'" "CHR '':'' \<notin> set b'"
    and "fst (ParseUint a' 8) = fst (ParseUint a 8)" "fst (ParseUint b' 8) = fst (ParseUint b 8)"
  shows "mask_str s = mask_str (a' @ '':'' @ b')"
  using assms by (simp only: mask_str_range [OF assms(1)] mask_str_pair [OF assms(2,3)])

text \<open>
  Claim C4, as the code has it.  \<open>mask\<close> returns a mask text for every specifier.  A
  specifier without a digit gives the mask of bit 0.  A component that ParseUint
  rejects is rejected with a syntax error or a range error; one rejected with a syntax
  error counts as 0, and one rejected with a range error (a number above 255 was read
  before anything else went wrong) counts as 255: the mask is that of the specifier
  with the component replaced by \<open>0\<close> or \<open>255\<close>.
\<close>

theorem mask_str_permissive:
  "(\<forall>s. take 2 (mask_str s) = ''0x'') \<and>
   (\<forall>s. (\<forall>c\<in>set s. \<not> is_digit c) \<longrightarrow> mask_str s = ''0x1'') \<and>
   (\<forall>s e. snd (ParseUint s 8) = Some e \<longrightarrow> e = ErrSyntax \<or> e = ErrRange) \<and>
   (\<forall>s. length (Split s CHR '':'') \<noteq> 2 \<and> snd (ParseUint s 8) = Some ErrSyntax \<longrightarrow>
        mask_str s = mask_str ''0'') \<and>
   (\<forall>s. length (Split s CHR '':'') \<noteq> 2 \<and> snd (ParseUint s 8) = Some ErrRange \<longrightarrow>
        mask_str s = mask_str ''255'') \<and>
   (\<forall>s a b. Split s CHR '':'' = [a, b] \<and> snd (ParseUint a 8) = Some ErrSyntax \<longrightarrow>
        mask_str s = mask_str (''0'' @ '':'' @ b)) \<and>
   (\<forall>s a b. Split s CHR '':'' = [a, b] \<and> snd (ParseUint b 8) = Some ErrSyntax \<longrightarrow>
        mask_str s = mask_str (a @ '':'' @ ''0'')) \<and>
   (\<forall>s a b. Split s CHR '':'' = [a, b] \<and> snd (ParseUint a 8) = Some ErrRange \<longrightarrow>
        mask_str s = mask_str (''255'' @ '':'' @ b)) \<and>
   (\<forall>s a b. Split s CHR '':'' = [a, b] \<and> snd (ParseUint b 8) = Some ErrRange \<longrightarrow>
        mask_str s = mask_str (a @ '':'' @ ''255''))"
proof (intro conjI allI impI)
  fix s
  show "take 2 (mask_str s) = ''0x''"
    by (simp add: mask_str_def Sprintf_0x_def Let_def)
next
  fix s
  assume nd: "\<forall>c\<in>set s. \<not> is_digit c"
  show "mask_str s = ''0x1''"
  proof (cases "length (Split s CHR '':'') = 2")
    case False
    then show ?thesis
      by (simp add: mask_str_single ParseUint_no_digit [OF nd] Sprintf_0x_def fmt_x_def hex_digit_def)
  next
    case True
    then obtain a b where sp: "Split s CHR '':'' = [a, b]"
      by (cases "Split s CHR '':''" rule: list.exhaust; simp; metis Suc_length_conv length_0_conv)
    then have "set a \<subseteq> set s" "set b \<subseteq> set s"
      using Split_pieces_subset [of a s "CHR '':''"] Split_pieces_subset [of b s "CHR '':''"] by simp_all
    then have "ParseUint a 8 = (0, Some ErrSyntax)" "ParseUint b 8 = (0, Some ErrSyntax)"
      using nd by (auto intro!: ParseUint_no_digit)
    then show ?thesis
      by (simp add: mask_str_range [OF sp] Sprintf_0x_def fmt_x_def hex_digit_def)
  qed
next
  fix s e
  assume "snd (ParseUint s 8) = Some e"
  then show "e = ErrSyntax \<or> e = ErrRange" using ParseUint_8_errors by blast
next
  fix s
  assume "length (Split s CHR '':'') \<noteq> 2 \<and> snd (ParseUint s 8) = Some ErrSyntax"
  then show "mask_str s = mask_str ''0''"
    using ParseUint_8_errors [of s ErrSyntax]
    by (simp add: mask_str_single mask_str_0 Sprintf_0x_def fmt_x_def hex_digit_def)
next
  fix s
  assume "length (Split s CHR '':'') \<noteq> 2 \<and> snd (ParseUint s 8) = Some ErrRange"
  then show "mask_str s = mask_str ''255''"
    using ParseUint_8_errors [of s ErrRange]
    by (simp add: mask_str_single mask_str_255 Sprintf_0x_def fmt_x_def hex_digit_def)
next
  fix s a b
  assume h: "Split s CHR '':'' = [a, b] \<and> snd (ParseUint a 8) = Some ErrSyntax"
  then show "mask_str s = mask_str (''0'' @ '':'' @ b)"
    using ParseUint_8_errors [of a ErrSyntax] Split_pair_parts [of s a b]
    by (intro mask_str_pair_cong [of s a b]) (simp_all add: ParseUint_0)
next
  fix s a b
  assume h: "Split s CHR '':'' = [a, b] \<and> snd (ParseUint b 8) = Some ErrSyntax"
  then show "mask_str s = mask_str (a @ '':'' @ ''0'')"
    using ParseUint_8_errors [of b ErrSyntax] Split_pair_parts [of s a b]
    by (intro mask_str_pair_cong [of s a b]) (simp_all add: ParseUint_0)
next
  fix s a b
  assume h: "Split s CHR '':'' = [a, b] \<and> snd (ParseUint a 8) = Some ErrRange"
  then show "mask_str s = mask_str (''255'' @ '':'' @ b)"
    using ParseUint_8_errors [of a ErrRange] Split_pair_parts [of s a b]
    by (intro mask_str_pair_cong [of s a b]) (simp_all add: ParseUint_255)
next
  fix s a b
  assume h: "Split s CHR '':'' = [a, b] \<and> snd (ParseUint b 8) = Some ErrRange"
  then show "mask_str s = mask_str (a @ '':'' @ ''255'')"
    using ParseUint_8_errors [of b ErrRange] Split_pair_parts [of s a b]
    by (intro mask_str_pair_cong [of s a b]) (simp_all add: ParseUint_255)
qed

theorem mask_str_permissive_witness:
  "mask_str ''abc'' = ''0x1'' \<and> mask_str ''4:xyz'' = ''0x1f'' \<and> mask_str ''300'' = ''0x0'' \<and>
   mask_str ''0x100:3'' = ''0x-8''"
proof -
  note t = mask_str_permissive
  have "\<forall>c\<in>set ''abc''. \<not> is_digit c" by (simp add: is_digit_def less_eq_char_def)
  then have 1: "mask_str ''abc'' = ''0x1''" using t by blast
  have "Split ''4:xyz'' CHR '':'' = [''4'', ''xyz''] \<and> snd (ParseUint ''xyz'' 8) = Some ErrSyntax"
    by (simp add: pu_defs)
  then have 2: "mask_str ''4:xyz'' = mask_str (''4'' @ '':'' @ ''0'')" using t by blast
  have "length (Split ''300'' CHR '':'') \<noteq> 2 \<and> snd (ParseUint ''300'' 8) = Some ErrRange"
    by (simp add: pu_defs)
  then have 3: "mask_str ''300'' = mask_str ''255''" using t by blast
  have "Split ''0x100:3'' CHR '':'' = [''0x100'', ''3''] \<and> snd (ParseUint ''0x100'' 8) = Some ErrRange"
    by (simp add: pu_defs)
  then have 4: "mask_str ''0x100:3'' = mask_str (''255'' @ '':'' @ ''3'')" using t by blast
  show ?thesis
    unfolding 1 2 3 4 by (simp add: pu_defs mask_defs)
qed

text \<open>
  Against claim C4 as stated: \<open>999abc\<close> is no number, ParseUint rejects it, and yet it
  does not count as zero.  The loop reports the overflow at the third digit, before it
  sees the letters, and returns 255 with the range error; bit 255 is shifted out, so the
  mask is 0 and not the mask of bit 0.
\<close>

theorem mask_str_overflow_counterexample:
  "ParseUint ''999abc'' 8 = (255, Some ErrRange) \<and> mask_str ''999abc'' = ''0x0'' \<and>
   mask_str ''0'' = ''0x1'' \<and> mask_str ''999abc'' \<noteq> mask_str ''0''"
  by (simp add: pu_defs mask_defs)

section \<open>Properties of the scalar type resolver\<close>

lemmas re_defs = reCType_FindStringSubmatch_def arraylen_group_def ctype_char_def is_digit_def char_eval

lemma dropWhile_not_all: "\<forall>c\<in>set xs. P c \<Longrightarrow> dropWhile (\<lambda>c. \<not> P c) (xs @ ys) = (if xs = [] then dropWhile (\<lambda>c. \<not> P c) ys else xs @ ys)"
  by (cases xs) auto

lemma bracket_not_ctype: "\<not> ctype_char CHR ''[''" "\<not> is_digit CHR '']''"
  by (simp_all add: ctype_char_def is_digit_def char_eval)

lemma FindStringSubmatch_bare:
  assumes "code \<noteq> []" "\<forall>c\<in>set code. ctype_char c"
  shows "reCType_FindStringSubmatch code = [code, code, []]"
proof -
  obtain c cs where code: "code = c # cs" using assms(1) by (cases code) auto
  then have "dropWhile (\<lambda>c. \<not> ctype_char c) code = code" using assms(2) by simp
  moreover have "takeWhile ctype_char code = code" "dropWhile ctype_char code = []"
    using assms(2) by simp_all
  ultimately show ?thesis
    using code by (simp add: reCType_FindStringSubmatch_def arraylen_group_def Let_def)
qed

lemma FindStringSubmatch_array:
  assumes "code \<noteq> []" "\<forall>c\<in>set code. ctype_char c" "ds \<noteq> []" "\<forall>d\<in>set ds. is_digit d"
  shows "reCType_FindStringSubmatch (code @ ''['' @ ds @ '']'')
         = [code @ ''['' @ ds @ '']'', code, ''['' @ ds @ '']'']"
proof -
  let ?s = "code @ ''['' @ ds @ '']''"
  obtain c cs where code: "code = c # cs" using assms(1) by (cases code) auto
  then have d: "dropWhile (\<lambda>c. \<not> ctype_char c) ?s = ?s" using assms(2) by simp
  have t: "takeWhile ctype_char ?s = code"
    using assms(2) bracket_not_ctype by (simp add: takeWhile_append2)
  have r: "dropWhile ctype_char ?s = ''['' @ ds @ '']''"
    using assms(2) bracket_not_ctype by (simp add: dropWhile_append2)
  have "takeWhile is_digit (ds @ '']'') = ds" "dropWhile is_digit (ds @ '']'') = '']''"
    using assms(4) bracket_not_ctype by simp_all
  then have g: "arraylen_group (''['' @ ds @ '']'') = ''['' @ ds @ '']''"
    using assms(3) by (simp add: arraylen_group_def)
  have ne: "?s \<noteq> []" using assms(1) by simp
  show ?thesis
    by (simp only: reCType_FindStringSubmatch_def Let_def d t r g ne if_False)
qed

lemma goType_code:
  assumes "scalar_switch code = Some t" "code \<noteq> []" "\<forall>c\<in>set code. ctype_char c"
  shows "goType code = Inr t"
    and "ds \<noteq> [] \<Longrightarrow> \<forall>d\<in>set ds. is_digit d \<Longrightarrow>
         goType (code @ ''['' @ ds @ '']'') = Inr (''['' @ ds @ '']'' @ t)"
proof -
  show "goType code = Inr t"
    using assms by (simp add: goType_def FindStringSubmatch_bare)
  assume "ds \<noteq> []" "\<forall>d\<in>set ds. is_digit d"
  then show "goType (code @ ''['' @ ds @ '']'') = Inr (''['' @ ds @ '']'' @ t)"
    using assms by (simp add: goType_def FindStringSubmatch_array del: append.simps)
qed

lemma ctype_table_eval:
  "list_all (\<lambda>(code, t). scalar_switch code = Some t \<and> code \<noteq> [] \<and> list_all ctype_char code) ctype_table"
  by (simp add: ctype_table_def scalar_switch_def ctype_char_def is_digit_def less_eq_char_def)

lemma ctype_table_ok:
  assumes "(code, t) \<in> set ctype_table"
  shows "scalar_switch code = Some t \<and> code \<noteq> [] \<and> (\<forall>c\<in>set code. ctype_char c)"
proof -
  have "case (code, t) of (code, t) \<Rightarrow> scalar_switch code = Some t \<and> code \<noteq> [] \<and> list_all ctype_char code"
    using ctype_table_eval assms unfolding list_all_iff by blast
  then show ?thesis by (simp add: list_all_iff)
qed

text \<open>
  Claim C1.  For every scalar code of the table, the resolver returns the Go type of the
  code, and for the code followed by a bracketed, non-empty run of decimal digits it
  returns that array type: \<open>U4\<close> gives \<open>uint32\<close> and \<open>U4[12]\<close> gives \<open>[12]uint32\<close>.
\<close>

theorem goType_table:
  "\<forall>(code, t) \<in> set ctype_table.
      goType code = Inr t \<and>
      (\<forall>ds. ds \<noteq> [] \<and> (\<forall>d\<in>set ds. is_digit d) \<longrightarrow>
         goType (code @ ''['' @ ds @ '']'') = Inr (''['' @ ds @ '']'' @ t))"
proof (intro ballI, clarify, intro conjI allI impI)
  fix code t
  assume m: "(code, t) \<in> set ctype_table"
  note ok = ctype_table_ok [OF m]
  show "goType code = Inr t"
    using ok by (intro goType_code(1)) simp_all
  fix ds
  assume "ds \<noteq> [] \<and> (\<forall>d\<in>set ds. is_digit d)"
  then show "goType (code @ ''['' @ ds @ '']'') = Inr (''['' @ ds @ '']'' @ t)"
    using ok by (intro goType_code(2)) simp_all
qed

theorem goType_table_witness:
  "goType ''U4'' = Inr ''uint32'' \<and> goType ''U4[12]'' = Inr ''[12]uint32'' \<and>
   goType ''RU1_3[3]'' = Inr ''[3]Float8''"
proof -
  have u4: "(''U4'', ''uint32'') \<in> set ctype_table" and ru: "(''RU1_3'', ''Float8'') \<in> set ctype_table"
    by (simp_all add: ctype_table_def)
  have d12: "''12'' \<noteq> [] \<and> (\<forall>d\<in>set ''12''. is_digit d)" and d3: "''3'' \<noteq> [] \<and> (\<forall>d\<in>set ''3''. is_digit d)"
    by (simp_all add: is_digit_def less_eq_char_def)
  from goType_table u4 have a: "goType ''U4'' = Inr ''uint32''"
    and "\<forall>ds. ds \<noteq> [] \<and> (\<forall>d\<in>set ds. is_digit d) \<longrightarrow>
           goType (''U4'' @ ''['' @ ds @ '']'') = Inr (''['' @ ds @ '']'' @ ''uint32'')"
    by blast+
  with d12 have b: "goType (''U4'' @ ''['' @ ''12'' @ '']'') = Inr (''['' @ ''12'' @ '']'' @ ''uint32'')"
    by blast
  from goType_table ru
  have "\<forall>ds. ds \<noteq> [] \<and> (\<forall>d\<in>set ds. is_digit d) \<longrightarrow>
           goType (''RU1_3'' @ ''['' @ ds @ '']'') = Inr (''['' @ ds @ '']'' @ ''Float8'')"
    by blast
  with d3 have c: "goType (''RU1_3'' @ ''['' @ ''3'' @ '']'') = Inr (''['' @ ''3'' @ '']'' @ ''Float8'')"
    by blast
  show ?thesis using a b c by simp
qed

text \<open>
  Claim C2 asks for an error on every text outside the grammar.  The pattern is not
  anchored, so the resolver takes the first run of class characters it finds and lets
  the rest of the text go: \<open>Q9\<close> is refused (its run \<open>9\<close> is no scalar code), but
  \<open>U4[abc]\<close> resolves to \<open>uint32\<close>, as do \<open>xxU4\<close> and \<open>U4[12]x\<close> to their types.
\<close>

theorem goType_unanchored:
  "goType ''Q9'' = Inl (InvalidScalarPart ''Q9'' ''9'') \<and>
   goType ''U4[abc]'' = Inr ''uint32'' \<and>
   goType ''xxU4'' = Inr ''uint32'' \<and>
   goType ''U4[12]x'' = Inr ''[12]uint32''"
  by (simp add: goType_def re_defs scalar_switch_def Let_def)

section \<open>ParseUint reads the integer literals\<close>

subsection \<open>Digits\<close>

lemma of_char_literals:
  "(of_char CHR ''0'' :: nat) = 48" "(of_char CHR ''1'' :: nat) = 49" "(of_char CHR ''7'' :: nat) = 55"
  "(of_char CHR ''9'' :: nat) = 57" "(of_char CHR ''a'' :: nat) = 97" "(of_char CHR ''f'' :: nat) = 102"
  "(of_char CHR ''z'' :: nat) = 122" "(of_char CHR ''A'' :: nat) = 65" "(of_char CHR ''F'' :: nat) = 70"
  "(of_char CHR ''_'' :: nat) = 95"
  by simp_all

lemma div_32_cases:
  fixes n :: nat
  shows "64 \<le> n \<Longrightarrow> n < 96 \<Longrightarrow> n div 32 = 2" "96 \<le> n \<Longrightarrow> n < 128 \<Longrightarrow> n div 32 = 3"
    "32 \<le> n \<Longrightarrow> n < 64 \<Longrightarrow> n div 32 = 1"
  by (simp_all add: div_nat_eqI)

lemma lower_letter_iff:
  "CHR ''a'' \<le> lower c \<and> lower c \<le> CHR ''z'' \<longleftrightarrow>
     (CHR ''a'' \<le> c \<and> c \<le> CHR ''z'') \<or> (CHR ''A'' \<le> c \<and> c \<le> CHR ''Z'')"
proof -
  let ?n = "of_char c :: nat"
  consider "?n < 32" | "32 \<le> ?n" "?n < 64" | "64 \<le> ?n" "?n < 96" | "96 \<le> ?n" "?n < 128" | "128 \<le> ?n"
    by linarith
  then show ?thesis
  proof cases
    case 1
    then have "?n div 32 = 0" by simp
    then show ?thesis using 1 by (simp add: less_eq_char_def of_char_lower)
  next
    case 2
    then show ?thesis by (simp add: less_eq_char_def of_char_lower div_32_cases)
  next
    case 3
    then show ?thesis by (auto simp: less_eq_char_def of_char_lower div_32_cases)
  next
    case 4
    then show ?thesis by (auto simp: less_eq_char_def of_char_lower div_32_cases)
  next
    case 5
    then show ?thesis by (auto simp: less_eq_char_def of_char_lower)
  qed
qed

lemma digit_of_hex_iff: "digit_of c = Some d \<and> d < 16 \<longleftrightarrow> is_hex c \<and> d = digit_value c"
proof -
  let ?n = "of_char c :: nat"
  consider "?n < 32" | "32 \<le> ?n" "?n < 64" | "64 \<le> ?n" "?n < 96" | "96 \<le> ?n" "?n < 128" | "128 \<le> ?n"
    by linarith
  then show ?thesis
  proof cases
    case 1
    then have "?n div 32 = 0" by simp
    then show ?thesis using 1
      by (auto simp: digit_of_def digit_value_def is_hex_def is_digit_def less_eq_char_def of_char_lower)
  next
    case 2
    then show ?thesis
      by (auto simp: digit_of_def digit_value_def is_hex_def is_digit_def less_eq_char_def of_char_lower div_32_cases)
  next
    case 3
    then show ?thesis
      by (auto simp: digit_of_def digit_value_def is_hex_def is_digit_def less_eq_char_def of_char_lower div_32_cases)
  next
    case 4
    then show ?thesis
      by (auto simp: digit_of_def digit_value_def is_hex_def is_digit_def less_eq_char_def of_char_lower div_32_cases)
  next
    case 5
    then show ?thesis
      by (auto simp: digit_of_def digit_value_def is_hex_def is_digit_def less_eq_char_def of_char_lower)
  qed
qed

lemma is_digit_hex: "is_digit c \<Longrightarrow> is_hex c"
  by (simp add: is_hex_def)

lemma digit_value_digit: "is_digit c \<Longrightarrow> digit_value c = of_char c - 48 \<and> digit_value c < 10"
  by (auto simp: digit_value_def is_digit_def less_eq_char_def)

lemma digit_value_ge_10: "is_hex c \<Longrightarrow> \<not> is_digit c \<Longrightarrow> 10 \<le> digit_value c"
  by (auto simp: digit_value_def is_hex_def)

lemma digit_of_dec_iff: "digit_of c = Some d \<and> d < 10 \<longleftrightarrow> is_digit c \<and> d = digit_value c"
proof
  assume a: "digit_of c = Some d \<and> d < 10"
  then have h: "is_hex c \<and> d = digit_value c" using digit_of_hex_iff [of c d] by simp
  then have "is_digit c" using a digit_value_ge_10 [of c] by (cases "is_digit c") auto
  then show "is_digit c \<and> d = digit_value c" using h by simp
next
  assume a: "is_digit c \<and> d = digit_value c"
  then show "digit_of c = Some d \<and> d < 10"
    using digit_of_hex_iff [of c d] digit_value_digit [of c] is_digit_hex by auto
qed

lemma digit_of_oct_iff: "digit_of c = Some d \<and> d < 8 \<longleftrightarrow> is_oct c \<and> d = digit_value c"
proof -
  have "is_oct c \<longleftrightarrow> is_digit c \<and> digit_value c < 8"
    by (auto simp: is_oct_def is_digit_def digit_value_def less_eq_char_def)
  then show ?thesis using digit_of_dec_iff [of c d] by auto
qed

lemma digit_of_bin_iff: "digit_of c = Some d \<and> d < 2 \<longleftrightarrow> is_bin c \<and> d = digit_value c"
proof -
  have "is_bin c \<longleftrightarrow> is_digit c \<and> digit_value c < 2"
    unfolding is_bin_def char_eq_nat [of c]
    by (auto simp: is_digit_def digit_value_def less_eq_char_def)
  then show ?thesis using digit_of_dec_iff [of c d] by auto
qed

subsection \<open>The loop reads the digits\<close>

lemma digits_value_mono: "n \<le> digits_value base n ds" if "0 < base"
proof (induction ds arbitrary: n)
  case Nil
  then show ?case by simp
next
  case (Cons c cs)
  have "n \<le> n * base + digit_value c" using that by (cases base) simp_all
  also have "\<dots> \<le> digits_value base (n * base + digit_value c) cs" by (rule Cons.IH)
  finally show ?case using Cons.IH [of n] by simp
qed

lemma cutoff_iff: "0 < base \<Longrightarrow> n < (2 ^ 64 - 1) div base + 1 \<longleftrightarrow> n * base < (2 ^ 64 :: nat)"
proof -
  assume b: "0 < base"
  have "n < (2 ^ 64 - 1) div base + 1 \<longleftrightarrow> n \<le> (2 ^ 64 - 1) div base" by auto
  also have "\<dots> \<longleftrightarrow> n * base \<le> 2 ^ 64 - 1" using b by (simp add: less_eq_div_iff_mult_less_eq)
  also have "\<dots> \<longleftrightarrow> n * base < 2 ^ 64" by auto
  finally show ?thesis .
qed

lemma scan_accept:
  assumes cls: "\<And>c d. (digit_of c = Some d \<and> d < base) \<longleftrightarrow> (D c \<and> d = digit_value c)"
    and base: "0 < base" and mx: "mx < 2 ^ 64"
    and chars: "\<forall>c\<in>set ds. c = CHR ''_'' \<or> D c"
    and fits: "digits_value base n ds \<le> mx"
  shows "scan base ((2 ^ 64 - 1) div base + 1) mx ds n us
         = Inr (digits_value base n ds, us \<or> CHR ''_'' \<in> set ds)"
  using chars fits
proof (induction ds arbitrary: n us)
  case Nil
  then show ?case by simp
next
  case (Cons c cs)
  show ?case
  proof (cases "c = CHR ''_''")
    case True
    then show ?thesis using Cons by simp
  next
    case False
    let ?d = "digit_value c"
    have "D c" using Cons.prems False by simp
    then have d: "digit_of c = Some ?d" "?d < base" using cls [of c ?d] by simp_all
    have "n * base + ?d \<le> digits_value base (n * base + ?d) cs"
      using base by (rule digits_value_mono)
    then have le: "n * base + ?d \<le> mx" using Cons.prems(2) False by simp
    then have lt: "n * base + ?d < 2 ^ 64" using mx by simp
    then have "n * base < 2 ^ 64" by simp
    then have cut: "\<not> (2 ^ 64 - 1) div base + 1 \<le> n" using cutoff_iff [OF base, of n] by simp
    have m1: "(n * base) mod 2 ^ 64 = n * base" using lt by simp
    have m2: "(n * base + ?d) mod 2 ^ 64 = n * base + ?d" using lt by simp
    have "scan base ((2 ^ 64 - 1) div base + 1) mx cs (n * base + ?d) us
          = Inr (digits_value base (n * base + ?d) cs, us \<or> CHR ''_'' \<in> set cs)"
      using Cons.prems False by (intro Cons.IH) simp_all
    then show ?thesis
      using False d cut le m1 m2 by (simp add: Let_def)
  qed
qed

lemma scan_success:
  assumes cls: "\<And>c d. (digit_of c = Some d \<and> d < base) \<longleftrightarrow> (D c \<and> d = digit_value c)"
    and base: "0 < base" "base < 2 ^ 64"
    and sc: "scan base ((2 ^ 64 - 1) div base + 1) mx ds n us = Inr (v, us')"
  shows "v = digits_value base n ds \<and> us' = (us \<or> CHR ''_'' \<in> set ds) \<and>
         (\<forall>c\<in>set ds. c = CHR ''_'' \<or> D c) \<and> (n \<le> mx \<longrightarrow> v \<le> mx)"
  using sc
proof (induction ds arbitrary: n us)
  case Nil
  then show ?case by auto
next
  case (Cons c cs)
  show ?case
  proof (cases "c = CHR ''_''")
    case True
    then show ?thesis using Cons.IH [of n True] Cons.prems by auto
  next
    case False
    from Cons.prems False obtain d where d: "digit_of c = Some d" "d < base"
      by (auto split: option.splits if_splits)
    then have D: "D c" "d = digit_value c" using cls [of c d] by simp_all
    from Cons.prems False d have cut: "n < (2 ^ 64 - 1) div base + 1"
      by (auto split: if_splits)
    then have nb: "n * base < 2 ^ 64" using cutoff_iff [OF base(1)] by simp
    then have m1: "(n * base) mod 2 ^ 64 = n * base" by simp
    let ?n1 = "(n * base + d) mod 2 ^ 64"
    from Cons.prems False d cut m1 have chk: "\<not> ?n1 < n * base" "?n1 \<le> mx"
      and rest: "scan base ((2 ^ 64 - 1) div base + 1) mx cs ?n1 us = Inr (v, us')"
      by (auto simp: Let_def split: if_splits)
    have "n * base + d < 2 ^ 64"
    proof (rule ccontr)
      assume "\<not> n * base + d < 2 ^ 64"
      then have ge: "2 ^ 64 \<le> n * base + d" by simp
      have "n * base + d - 2 ^ 64 < 2 ^ 64" using nb d(2) base(2) by simp
      then have "?n1 = n * base + d - 2 ^ 64" using ge by (simp add: le_mod_geq)
      then have "?n1 < n * base" using ge d(2) base(2) by simp
      then show False using chk by simp
    qed
    then have n1: "?n1 = n * base + d" by simp
    from Cons.IH [OF rest] n1 chk D False show ?thesis by auto
  qed
qed

subsection \<open>The underscore check and the grammar\<close>

lemma underscore_no_digit:
  "\<not> is_digit CHR ''_''" "\<not> (CHR ''a'' \<le> lower CHR ''_'' \<and> lower CHR ''_'' \<le> CHR ''f'')"
  by (simp_all add: is_digit_def less_eq_char_def of_char_lower)

lemma is_hex_lower:
  assumes "is_hex c"
  shows "is_digit c \<or> (CHR ''a'' \<le> lower c \<and> lower c \<le> CHR ''f'')"
proof -
  let ?n = "of_char c :: nat"
  consider "is_digit c" | "97 \<le> ?n" "?n \<le> 102" | "65 \<le> ?n" "?n \<le> 70"
    using assms by (auto simp: is_hex_def less_eq_char_def)
  then show ?thesis
  proof cases
    case 1
    then show ?thesis by simp
  next
    case 2
    then have "?n div 32 = 3" by (intro div_32_cases) simp_all
    then show ?thesis using 2 by (simp add: less_eq_char_def of_char_lower)
  next
    case 3
    then have "?n div 32 = 2" by (intro div_32_cases) simp_all
    then show ?thesis using 3 by (simp add: less_eq_char_def of_char_lower)
  qed
qed

lemma underscoreOK_from_digit:
  "is_digit c \<or> (hex \<and> CHR ''a'' \<le> lower c \<and> lower c \<le> CHR ''f'') \<Longrightarrow>
     underscoreOK_from hex saw (c # cs) = underscoreOK_from hex CHR ''0'' cs"
  by (auto simp: is_digit_def)

lemma underscoreOK_from_underscore:
  "underscoreOK_from hex saw (CHR ''_'' # cs) = (saw = CHR ''0'' \<and> underscoreOK_from hex CHR ''_'' cs)"
  using underscore_no_digit by (auto simp: is_digit_def)

lemma automaton_to_grammar:
  assumes rec: "\<And>c. D c \<Longrightarrow> is_digit c \<or> (hex \<and> CHR ''a'' \<le> lower c \<and> lower c \<le> CHR ''f'')"
  shows "\<forall>c\<in>set r. c = CHR ''_'' \<or> D c \<Longrightarrow> r \<noteq> [] \<Longrightarrow> hd r \<noteq> CHR ''_'' \<Longrightarrow>
         underscoreOK_from hex CHR ''0'' r \<Longrightarrow> digits_sep D r"
proof (induction r rule: induct_list012)
  case 1
  then show ?case by simp
next
  case (2 c)
  then show ?case by simp
next
  case (3 c c' cs)
  have Dc: "D c" using "3.prems" by simp
  then have ok: "underscoreOK_from hex CHR ''0'' (c' # cs)"
    using "3.prems"(4) underscoreOK_from_digit [OF rec [OF Dc]] by simp
  show ?case
  proof (cases "c' = CHR ''_''")
    case True
    then have u: "underscoreOK_from hex CHR ''_'' cs" using ok underscoreOK_from_underscore by simp
    then obtain e cs' where cs: "cs = e # cs'" by (cases cs) auto
    have e: "e \<noteq> CHR ''_''" using u cs underscoreOK_from_underscore by auto
    then have "D e" using "3.prems"(1) cs by simp
    then have "underscoreOK_from hex CHR ''0'' cs"
      using u cs underscoreOK_from_digit [OF rec, of e] by simp
    then have "digits_sep D cs"
      using True "3.prems"(1) cs e by (intro "3.IH"(1)) simp_all
    then show ?thesis using True Dc by simp
  next
    case False
    then have "digits_sep D (c' # cs)"
      using "3.prems"(1) ok by (intro "3.IH"(2)) simp_all
    then show ?thesis using False Dc by simp
  qed
qed

lemma grammar_to_automaton:
  assumes rec: "\<And>c. D c \<Longrightarrow> is_digit c \<or> (hex \<and> CHR ''a'' \<le> lower c \<and> lower c \<le> CHR ''f'')"
  shows "digits_sep D r \<Longrightarrow>
         (\<forall>c\<in>set r. c = CHR ''_'' \<or> D c) \<and> hd r \<noteq> CHR ''_'' \<and> r \<noteq> [] \<and> (\<forall>saw. underscoreOK_from hex saw r)"
proof (induction r rule: induct_list012)
  case 1
  then show ?case by simp
next
  case (2 c)
  then have Dc: "D c" by simp
  then have "c \<noteq> CHR ''_''" using rec [OF Dc] underscore_no_digit by auto
  then show ?case
    using Dc underscoreOK_from_digit [OF rec [OF Dc], of _ "[]"]
    by (simp del: underscoreOK_from.simps(2))
next
  case (3 c c' cs)
  then have Dc: "D c" by simp
  then have nu: "c \<noteq> CHR ''_''" using rec [OF Dc] underscore_no_digit by auto
  show ?case
  proof (cases "c' = CHR ''_''")
    case True
    then have "digits_sep D cs" using "3.prems" by simp
    note ih = "3.IH"(1) [OF this]
    show ?thesis
      using ih True Dc nu underscoreOK_from_digit [OF rec [OF Dc]] underscoreOK_from_underscore
      by (simp del: underscoreOK_from.simps(2))
  next
    case False
    then have "digits_sep D (c' # cs)" using "3.prems" by simp
    note ih = "3.IH"(2) [OF this]
    show ?thesis
      using ih Dc nu underscoreOK_from_digit [OF rec [OF Dc]]
      by (auto simp del: underscoreOK_from.simps(2))
  qed
qed

lemma no_underscore_ok:
  assumes rec: "\<And>c. D c \<Longrightarrow> is_digit c \<or> (hex \<and> CHR ''a'' \<le> lower c \<and> lower c \<le> CHR ''f'')"
  shows "\<forall>c\<in>set r. D c \<Longrightarrow> underscoreOK_from hex CHR ''0'' r"
proof (induction r)
  case Nil
  then show ?case by simp
next
  case (Cons c r)
  then show ?case using underscoreOK_from_digit [OF rec, of c] by simp
qed

text \<open>After a digit or a base prefix: the rest passes the check iff it is \<open>[ "_" ] digits\<close>.\<close>

lemma rest_ok_iff:
  assumes rec: "\<And>c. D c \<Longrightarrow> is_digit c \<or> (hex \<and> CHR ''a'' \<le> lower c \<and> lower c \<le> CHR ''f'')"
  shows "opt_sep_digits D r \<longleftrightarrow>
         r \<noteq> [] \<and> (\<forall>c\<in>set r. c = CHR ''_'' \<or> D c) \<and> underscoreOK_from hex CHR ''0'' r"
proof (cases r)
  case Nil
  then show ?thesis by (simp add: opt_sep_digits_def)
next
  case (Cons c r')
  show ?thesis
  proof (cases "c = CHR ''_''")
    case True
    have "digits_sep D r' \<longleftrightarrow> (\<forall>c\<in>set r'. c = CHR ''_'' \<or> D c) \<and> underscoreOK_from hex CHR ''_'' r'"
    proof
      assume "digits_sep D r'"
      then show "(\<forall>c\<in>set r'. c = CHR ''_'' \<or> D c) \<and> underscoreOK_from hex CHR ''_'' r'"
        using grammar_to_automaton [OF rec, of D r'] by simp
    next
      assume a: "(\<forall>c\<in>set r'. c = CHR ''_'' \<or> D c) \<and> underscoreOK_from hex CHR ''_'' r'"
      then obtain e r'' where r': "r' = e # r''" by (cases r') auto
      have e: "e \<noteq> CHR ''_''" using a r' underscoreOK_from_underscore by auto
      then have "D e" using a r' by simp
      then have "underscoreOK_from hex CHR ''0'' r'"
        using a r' underscoreOK_from_digit [OF rec, of e] by simp
      then show "digits_sep D r'"
        using a r' e by (intro automaton_to_grammar [OF rec]) simp_all
    qed
    then show ?thesis
      using Cons True by (simp add: opt_sep_digits_def underscoreOK_from_underscore del: underscoreOK_from.simps)
  next
    case False
    have "digits_sep D r \<longleftrightarrow> (\<forall>c\<in>set r. c = CHR ''_'' \<or> D c) \<and> underscoreOK_from hex CHR ''0'' r"
    proof
      assume "digits_sep D r"
      then show "(\<forall>c\<in>set r. c = CHR ''_'' \<or> D c) \<and> underscoreOK_from hex CHR ''0'' r"
        using grammar_to_automaton [OF rec, of D r] by simp
    next
      assume "(\<forall>c\<in>set r. c = CHR ''_'' \<or> D c) \<and> underscoreOK_from hex CHR ''0'' r"
      then show "digits_sep D r"
        using Cons False by (intro automaton_to_grammar [OF rec]) simp_all
    qed
    then show ?thesis using Cons False by (simp add: opt_sep_digits_def)
  qed
qed

subsection \<open>ParseUint reads exactly the integer literals\<close>

lemma ParseUint_64_unfold:
  assumes "s \<noteq> []" "base_prefix s = (base, ds)"
  shows "ParseUint s 64 =
     (case scan base ((2 ^ 64 - 1) div base + 1) (2 ^ 64 - 1) ds 0 False of
        Inl (v, e) \<Rightarrow> (v, Some e)
      | Inr (n, us) \<Rightarrow> if us \<and> \<not> underscoreOK s then (0, Some ErrSyntax) else (n, None))"
  using assms by (simp add: ParseUint_def)

lemma digits_sep_Cons:
  "digits_sep D (c # r) \<longleftrightarrow> D c \<and> (r = [] \<or> opt_sep_digits D r)"
  by (cases r) (simp_all add: opt_sep_digits_def)

lemma literal_core:
  assumes cls: "\<And>c d. (digit_of c = Some d \<and> d < base) \<longleftrightarrow> (D c \<and> d = digit_value c)"
    and rec: "\<And>c. D c \<Longrightarrow> is_digit c \<or> (hex \<and> CHR ''a'' \<le> lower c \<and> lower c \<le> CHR ''f'')"
    and base: "0 < base" "base < 2 ^ 64"
    and s: "s \<noteq> []" "base_prefix s = (base, ds)"
    and uo: "underscoreOK s = underscoreOK_from hex CHR ''0'' ds"
  shows "ParseUint s 64 = (v, None) \<longleftrightarrow>
           (ds = [] \<or> opt_sep_digits D ds) \<and> digits_value base 0 ds < 2 ^ 64 \<and>
           v = digits_value base 0 ds"
proof
  assume ok: "ParseUint s 64 = (v, None)"
  let ?sc = "scan base ((2 ^ 64 - 1) div base + 1) (2 ^ 64 - 1) ds 0 False"
  from ok obtain us where sc: "?sc = Inr (v, us)" and chk: "\<not> (us \<and> \<not> underscoreOK s)"
    unfolding ParseUint_64_unfold [OF s]
    by (auto split: sum.splits prod.splits if_splits)
  from scan_success [OF cls base sc]
  have v: "v = digits_value base 0 ds" and us: "us = (CHR ''_'' \<in> set ds)"
    and chars: "\<forall>c\<in>set ds. c = CHR ''_'' \<or> D c" and le: "v \<le> 2 ^ 64 - 1"
    by simp_all
  have "underscoreOK_from hex CHR ''0'' ds"
  proof (cases us)
    case True
    then have "underscoreOK s" using chk by blast
    then show ?thesis unfolding uo .
  next
    case False
    with us have nu: "CHR ''_'' \<notin> set ds" by simp
    have all: "\<forall>c\<in>set ds. D c"
    proof
      fix c assume c: "c \<in> set ds"
      then have "c \<noteq> CHR ''_''" using nu by blast
      moreover have "c = CHR ''_'' \<or> D c" using chars c by blast
      ultimately show "D c" by blast
    qed
    show ?thesis
      by (rule no_underscore_ok [where D = D and hex = hex]) (erule rec, rule all)
  qed
  then have "ds = [] \<or> opt_sep_digits D ds"
    using chars rest_ok_iff [OF rec, of D ds] by auto
  moreover have "v < 2 ^ 64" using le by simp
  ultimately show "(ds = [] \<or> opt_sep_digits D ds) \<and> digits_value base 0 ds < 2 ^ 64 \<and>
           v = digits_value base 0 ds"
    using v by simp
next
  assume a: "(ds = [] \<or> opt_sep_digits D ds) \<and> digits_value base 0 ds < 2 ^ 64 \<and>
           v = digits_value base 0 ds"
  then have chars: "\<forall>c\<in>set ds. c = CHR ''_'' \<or> D c" and u: "underscoreOK_from hex CHR ''0'' ds"
    using rest_ok_iff [OF rec, of D ds] by auto
  have fits: "digits_value base 0 ds \<le> 2 ^ 64 - 1" using a by simp
  have "scan base ((2 ^ 64 - 1) div base + 1) (2 ^ 64 - 1) ds 0 False
        = Inr (digits_value base 0 ds, False \<or> CHR ''_'' \<in> set ds)"
    using cls base(1) _ chars fits by (rule scan_accept) simp
  then show "ParseUint s 64 = (v, None)"
    unfolding ParseUint_64_unfold [OF s] using u uo a by simp
qed

lemma prefix_letter_digit:
  assumes "p \<in> set ''bBoOxX''"
  shows "\<exists>d. digit_of p = Some d \<and> 8 \<le> d"
proof -
  have "list_all (\<lambda>p. \<exists>d. digit_of p = Some d \<and> 8 \<le> d) ''bBoOxX''"
    by (simp add: digit_of_def lower_def less_eq_char_def char_of_def bit_Suc_0_iff)
  then show ?thesis using assms unfolding list_all_iff by blast
qed

lemma lower_prefix_iff:
  "lower p = CHR ''b'' \<or> lower p = CHR ''o'' \<or> lower p = CHR ''x'' \<longleftrightarrow> p \<in> set ''bBoOxX''"
  by (auto simp: lower_b lower_o lower_x)

lemma is_oct_digit: "is_oct c \<Longrightarrow> is_digit c"
  by (auto simp: is_oct_def is_digit_def less_eq_char_def)

lemma is_bin_digit: "is_bin c \<Longrightarrow> is_digit c"
  by (auto simp: is_bin_def is_digit_def less_eq_char_def)

lemma ParseUint_64_iff:
  "ParseUint s 64 = (v, None) \<longleftrightarrow> int_lit s \<and> int_lit_value s < 2 ^ 64 \<and> v = int_lit_value s"
proof (cases s)
  case Nil
  then show ?thesis by (simp add: ParseUint_def int_lit_def)
next
  case (Cons c r)
  show ?thesis
  proof (cases "c = CHR ''0''")
    case False
    then have bp: "base_prefix s = (10, s)" using Cons by (simp add: base_prefix_def)
    have ne: "s \<noteq> []" using Cons by simp
    show ?thesis
    proof (cases "is_digit c")
      case True
      then have "c \<noteq> CHR ''-''" "c \<noteq> CHR ''+''" "c \<noteq> CHR ''_''"
        by (auto simp: is_digit_def less_eq_char_def)
      then have uo: "underscoreOK s = underscoreOK_from False CHR ''0'' s"
        using Cons False True by (simp add: underscoreOK_def is_digit_def)
      have "opt_sep_digits is_digit s \<longleftrightarrow> is_digit c \<and> (r = [] \<or> opt_sep_digits is_digit r)"
        using Cons \<open>c \<noteq> CHR ''_''\<close> digits_sep_Cons [of is_digit c r] by (simp add: opt_sep_digits_def)
      then have "int_lit s \<longleftrightarrow> s = [] \<or> opt_sep_digits is_digit s"
        using Cons False by (simp add: int_lit_def)
      moreover have "int_lit_value s = digits_value 10 0 s"
        using Cons False by (simp add: int_lit_value_def)
      ultimately show ?thesis
        using literal_core [of 10 is_digit False s s v, OF digit_of_dec_iff _ _ _ ne bp uo] by simp
    next
      case nd: False
      have "\<not> int_lit s" using Cons False nd by (simp add: int_lit_def)
      moreover have "ParseUint s 64 \<noteq> (v, None)"
      proof
        assume ok: "ParseUint s 64 = (v, None)"
        then obtain us where sc: "scan 10 ((2 ^ 64 - 1) div 10 + 1) (2 ^ 64 - 1) s 0 False = Inr (v, us)"
          and chk: "\<not> (us \<and> \<not> underscoreOK s)"
          unfolding ParseUint_64_unfold [OF ne bp]
          by (auto split: sum.splits prod.splits if_splits)
        from scan_success [of 10 is_digit, OF digit_of_dec_iff _ _ sc]
        have us: "us = (CHR ''_'' \<in> set s)" and chars: "\<forall>c\<in>set s. c = CHR ''_'' \<or> is_digit c"
          by simp_all
        then have c: "c = CHR ''_''" using Cons nd by simp
        then have "\<not> underscoreOK s" using Cons by (simp add: underscoreOK_def less_eq_char_def)
        then show False using chk us c Cons by simp
      qed
      ultimately show ?thesis by simp
    qed
  next
    case True
    show ?thesis
    proof (cases r)
      case Nil
      then have "s = ''0''" using Cons True by simp
      then show ?thesis
        by (auto simp: ParseUint_def base_prefix_def int_lit_def int_lit_value_def)
    next
      case r: (Cons p r')
      have ne: "s \<noteq> []" using Cons by simp
      have s: "s = CHR ''0'' # p # r'" using Cons True r by simp
      show ?thesis
      proof (cases "p \<in> set ''bBoOxX''")
        case False
        then have np: "\<not> (lower p = CHR ''b'' \<or> lower p = CHR ''o'' \<or> lower p = CHR ''x'')"
          using lower_prefix_iff by blast
        then have bp: "base_prefix s = (8, r)" using s r by (simp add: base_prefix_def)
        have uo: "underscoreOK s = underscoreOK_from False CHR ''0'' r"
          using s r np by (simp add: underscoreOK_def less_eq_char_def)
        have "int_lit s \<longleftrightarrow> r = [] \<or> opt_sep_digits is_oct r"
          using s r False by (simp add: int_lit_def)
        moreover have "int_lit_value s = digits_value 8 0 r"
          using s r False by (simp add: int_lit_value_def)
        ultimately show ?thesis
          using literal_core [of 8 is_oct False s r v, OF digit_of_oct_iff _ _ _ ne bp uo] is_oct_digit
          by simp
      next
        case pl: True
        show ?thesis
        proof (cases "r' = []")
          case True
          then have bp: "base_prefix s = (8, [p])" using s by (simp add: base_prefix_def)
          obtain d where d: "digit_of p = Some d" "8 \<le> d" using prefix_letter_digit [OF pl] by blast
          have "p \<noteq> CHR ''_''" using pl by auto
          then have "scan 8 ((2 ^ 64 - 1) div 8 + 1) (2 ^ 64 - 1) [p] 0 False = Inl (0, ErrSyntax)"
            using d by simp
          then have "ParseUint s 64 = (0, Some ErrSyntax)"
            unfolding ParseUint_64_unfold [OF ne bp] by simp
          moreover have "\<not> int_lit s"
            using s True pl by (auto simp: int_lit_def opt_sep_digits_def)
          ultimately show ?thesis by simp
        next
          case False
          then have len: "3 \<le> length s" using s by (cases r') simp_all
          consider "p = CHR ''b'' \<or> p = CHR ''B''" | "p = CHR ''o'' \<or> p = CHR ''O''"
            | "p = CHR ''x'' \<or> p = CHR ''X''"
            using pl by auto
          then show ?thesis
          proof cases
            case 1
            then have lp: "lower p = CHR ''b''" "lower p \<noteq> CHR ''x''" using lower_b lower_x by auto
            then have bp: "base_prefix s = (2, r')" using s len by (simp add: base_prefix_def)
            have uo: "underscoreOK s = underscoreOK_from False CHR ''0'' r'"
              using s lp by (simp add: underscoreOK_def)
            have "int_lit s \<longleftrightarrow> r' = [] \<or> opt_sep_digits is_bin r'"
              using s 1 False by (auto simp: int_lit_def)
            moreover have "int_lit_value s = digits_value 2 0 r'"
              using s 1 by (auto simp: int_lit_value_def)
            ultimately show ?thesis
              using literal_core [of 2 is_bin False s r' v, OF digit_of_bin_iff _ _ _ ne bp uo] is_bin_digit
              by simp
          next
            case 2
            then have lp: "lower p = CHR ''o''" "lower p \<noteq> CHR ''x''" "lower p \<noteq> CHR ''b''"
              using lower_b lower_o lower_x by auto
            then have bp: "base_prefix s = (8, r')" using s len by (simp add: base_prefix_def)
            have uo: "underscoreOK s = underscoreOK_from False CHR ''0'' r'"
              using s lp by (simp add: underscoreOK_def)
            have "int_lit s \<longleftrightarrow> r' = [] \<or> opt_sep_digits is_oct r'"
              using s 2 False by (auto simp: int_lit_def)
            moreover have "int_lit_value s = digits_value 8 0 r'"
              using s 2 by (auto simp: int_lit_value_def)
            ultimately show ?thesis
              using literal_core [of 8 is_oct False s r' v, OF digit_of_oct_iff _ _ _ ne bp uo] is_oct_digit
              by simp
          next
            case 3
            then have lp: "lower p = CHR ''x''" "lower p \<noteq> CHR ''o''" "lower p \<noteq> CHR ''b''"
              using lower_b lower_o lower_x by auto
            then have bp: "base_prefix s = (16, r')" using s len by (simp add: base_prefix_def)
            have uo: "underscoreOK s = underscoreOK_from True CHR ''0'' r'"
              using s lp by (simp add: underscoreOK_def)
            have "int_lit s \<longleftrightarrow> r' = [] \<or> opt_sep_digits is_hex r'"
              using s 3 False by (auto simp: int_lit_def)
            moreover have "int_lit_value s = digits_value 16 0 r'"
              using s 3 by (auto simp: int_lit_value_def)
            ultimately show ?thesis
              using literal_core [of 16 is_hex True s r' v, OF digit_of_hex_iff _ _ _ ne bp uo] is_hex_lower
              by simp
          qed
        qed
      qed
    qed
  qed
qed

lemma digits_sep_plain:
  assumes "\<not> D CHR ''_''"
  shows "ds \<noteq> [] \<Longrightarrow> \<forall>c\<in>set ds. D c \<Longrightarrow> digits_sep D ds"
proof (induction ds rule: induct_list012)
  case 1
  then show ?case by simp
next
  case (2 c)
  then show ?case by simp
next
  case (3 c c' cs)
  then have "c' \<noteq> CHR ''_''" using assms by auto
  then show ?case using 3 by simp
qed

lemma opt_sep_digits_plain:
  assumes "\<not> D CHR ''_''" "ds \<noteq> []" "\<forall>c\<in>set ds. D c"
  shows "opt_sep_digits D ds"
proof -
  obtain c r where ds: "ds = c # r" using assms(2) by (cases ds) auto
  then have "c \<noteq> CHR ''_''" using assms(1,3) by auto
  then show ?thesis
    using ds digits_sep_plain [OF assms] by (simp add: opt_sep_digits_def)
qed

lemma underscore_classes:
  "\<not> is_digit CHR ''_''" "\<not> is_hex CHR ''_''" "\<not> is_oct CHR ''_''" "\<not> is_bin CHR ''_''"
  by (simp_all add: is_digit_def is_hex_def is_oct_def is_bin_def less_eq_char_def)

lemma Hex_UnmarshalXML_literal:
  assumes "int_lit s" "int_lit_value s < 2 ^ 64"
  shows "Hex_UnmarshalXML (Inr s) = Inr (of_nat (int_lit_value s))"
proof -
  have "ParseUint s 64 = (int_lit_value s, None)"
    using assms ParseUint_64_iff [of s "int_lit_value s"] by simp
  then show ?thesis by (simp add: Hex_UnmarshalXML_def)
qed

lemma Hex_UnmarshalXML_not_literal:
  assumes "\<not> int_lit s"
  shows "\<exists>e. Hex_UnmarshalXML (Inr s) = Inl (ParseError e)"
proof (cases "ParseUint s 64")
  case (Pair v r)
  then have "r \<noteq> None" using assms ParseUint_64_iff [of s v] by auto
  then show ?thesis using Pair by (auto simp: Hex_UnmarshalXML_def)
qed

lemma decimal_literal:
  assumes "ds \<noteq> []" "\<forall>c\<in>set ds. is_digit c" "hd ds \<noteq> CHR ''0'' \<or> ds = ''0''"
  shows "int_lit ds \<and> int_lit_value ds = digits_value 10 0 ds"
proof (cases "ds = ''0''")
  case True
  then show ?thesis by (simp add: int_lit_def int_lit_value_def digit_value_def is_digit_def)
next
  case False
  obtain c r where ds: "ds = c # r" using assms(1) by (cases ds) auto
  have "digits_sep is_digit ds"
    using underscore_classes(1) assms(1,2) by (rule digits_sep_plain)
  then have "is_digit c \<and> (r = [] \<or> opt_sep_digits is_digit r)"
    unfolding ds digits_sep_Cons .
  then show ?thesis using ds assms(3) False by (simp add: int_lit_def int_lit_value_def)
qed

lemma hex_literal:
  assumes "ds \<noteq> []" "\<forall>c\<in>set ds. is_hex c"
  shows "int_lit (''0x'' @ ds) \<and> int_lit_value (''0x'' @ ds) = digits_value 16 0 ds"
  using opt_sep_digits_plain [OF underscore_classes(2) assms]
  by (simp add: int_lit_def int_lit_value_def)

lemma octal_literal:
  assumes "ds \<noteq> []" "\<forall>c\<in>set ds. is_oct c"
  shows "int_lit (''0'' @ ds) \<and> int_lit_value (''0'' @ ds) = digits_value 8 0 ds"
proof -
  obtain p r where ds: "ds = p # r" using assms(1) by (cases ds) auto
  then have "is_oct p" using assms(2) by simp
  then have "p \<notin> set ''bBoOxX''"
    by (auto simp: is_oct_def less_eq_char_def)
  then show ?thesis
    using ds opt_sep_digits_plain [OF underscore_classes(3) assms]
    by (simp add: int_lit_def int_lit_value_def)
qed

lemmas hex_defs = Hex_UnmarshalXML_def pu_defs

lemmas lit_eval = int_lit_def int_lit_value_def opt_sep_digits_def is_digit_def is_hex_def
  is_oct_def is_bin_def digit_value_def less_eq_char_def

text \<open>
  Claim C8.  The text of a class or id element is parsed as an unsigned 64-bit number:
  \<open>0x01\<close> and \<open>1\<close> both give 1; every decimal literal and every \<open>0x\<close> literal whose
  value fits in 64 bits gives its value; and every text that is not an integer literal,
  such as \<open>xyz\<close>, gives a parse error.
\<close>

theorem Hex_UnmarshalXML_decimal_and_hex:
  "Hex_UnmarshalXML (Inr ''0x01'') = Inr 1 \<and>
   Hex_UnmarshalXML (Inr ''1'') = Inr 1 \<and>
   Hex_UnmarshalXML (Inr ''xyz'') = Inl (ParseError ErrSyntax) \<and>
   (\<forall>ds. ds \<noteq> [] \<and> (\<forall>c\<in>set ds. is_digit c) \<and> (hd ds \<noteq> CHR ''0'' \<or> ds = ''0'') \<and>
         digits_value 10 0 ds < 2 ^ 64 \<longrightarrow>
      Hex_UnmarshalXML (Inr ds) = Inr (of_nat (digits_value 10 0 ds))) \<and>
   (\<forall>ds. ds \<noteq> [] \<and> (\<forall>c\<in>set ds. is_hex c) \<and> digits_value 16 0 ds < 2 ^ 64 \<longrightarrow>
      Hex_UnmarshalXML (Inr (''0x'' @ ds)) = Inr (of_nat (digits_value 16 0 ds))) \<and>
   (\<forall>s. \<not> int_lit s \<longrightarrow> (\<exists>e. Hex_UnmarshalXML (Inr s) = Inl (ParseError e)))"
proof (intro conjI allI impI)
  show "Hex_UnmarshalXML (Inr ''0x01'') = Inr 1" by (simp add: hex_defs)
  show "Hex_UnmarshalXML (Inr ''1'') = Inr 1" by (simp add: hex_defs)
  show "Hex_UnmarshalXML (Inr ''xyz'') = Inl (ParseError ErrSyntax)" by (simp add: hex_defs)
next
  fix ds
  assume "ds \<noteq> [] \<and> (\<forall>c\<in>set ds. is_digit c) \<and> (hd ds \<noteq> CHR ''0'' \<or> ds = ''0'') \<and>
         digits_value 10 0 ds < 2 ^ 64"
  then show "Hex_UnmarshalXML (Inr ds) = Inr (of_nat (digits_value 10 0 ds))"
    using decimal_literal [of ds] Hex_UnmarshalXML_literal [of ds] by simp
next
  fix ds
  assume "ds \<noteq> [] \<and> (\<forall>c\<in>set ds. is_hex c) \<and> digits_value 16 0 ds < 2 ^ 64"
  then show "Hex_UnmarshalXML (Inr (''0x'' @ ds)) = Inr (of_nat (digits_value 16 0 ds))"
    using hex_literal [of ds] Hex_UnmarshalXML_literal [of "''0x'' @ ds"] by simp
next
  fix s
  assume "\<not> int_lit s"
  then show "\<exists>e. Hex_UnmarshalXML (Inr s) = Inl (ParseError e)"
    by (rule Hex_UnmarshalXML_not_literal)
qed

theorem Hex_UnmarshalXML_decimal_and_hex_witness:
  "Hex_UnmarshalXML (Inr ''255'' :: unit + string) = Inr 255 \<and>
   Hex_UnmarshalXML (Inr ''0xfF'' :: unit + string) = Inr 255 \<and>
   \<not> int_lit ''0x'' \<and> (\<exists>e. Hex_UnmarshalXML (Inr ''0x'' :: unit + string) = Inl (ParseError e))"
proof -
  note t = Hex_UnmarshalXML_decimal_and_hex [where ?'a = unit]
  have d: "Hex_UnmarshalXML (Inr ''255'' :: unit + string) = Inr (of_nat (digits_value 10 0 ''255''))"
    using t [THEN conjunct2, THEN conjunct2, THEN conjunct2, THEN conjunct1, rule_format, of "''255''"]
    by (simp add: lit_eval)
  have h: "Hex_UnmarshalXML (Inr (''0x'' @ ''fF'') :: unit + string) = Inr (of_nat (digits_value 16 0 ''fF''))"
    using t [THEN conjunct2, THEN conjunct2, THEN conjunct2, THEN conjunct2, THEN conjunct1, rule_format, of "''fF''"]
    by (simp add: lit_eval)
  have n: "\<not> int_lit ''0x''" by (simp add: lit_eval)
  then have e: "\<exists>e. Hex_UnmarshalXML (Inr ''0x'' :: unit + string) = Inl (ParseError e)"
    using t [THEN conjunct2, THEN conjunct2, THEN conjunct2, THEN conjunct2, THEN conjunct2, rule_format, of "''0x''"]
    by blast
  show ?thesis using d h n e by (simp add: lit_eval)
qed

text \<open>
  Claim C9.  Parsing with base 0 reads more than decimal and \<open>0x\<close> literals: a literal
  with a leading zero is octal (\<open>010\<close> is 8), and the prefixes \<open>0b\<close> and \<open>0o\<close> and
  underscores between digits are read as well; every integer literal whose value fits
  in 64 bits gives its value.
\<close>

theorem Hex_UnmarshalXML_other_forms:
  "Hex_UnmarshalXML (Inr ''010'') = Inr 8 \<and>
   Hex_UnmarshalXML (Inr ''0b101'') = Inr 5 \<and>
   Hex_UnmarshalXML (Inr ''0o17'') = Inr 15 \<and>
   Hex_UnmarshalXML (Inr ''1_000'') = Inr 1000 \<and>
   (\<forall>ds. ds \<noteq> [] \<and> (\<forall>c\<in>set ds. is_oct c) \<and> digits_value 8 0 ds < 2 ^ 64 \<longrightarrow>
      Hex_UnmarshalXML (Inr (''0'' @ ds)) = Inr (of_nat (digits_value 8 0 ds))) \<and>
   (\<forall>s. int_lit s \<and> int_lit_value s < 2 ^ 64 \<longrightarrow>
      Hex_UnmarshalXML (Inr s) = Inr (of_nat (int_lit_value s)))"
proof (intro conjI allI impI)
  show "Hex_UnmarshalXML (Inr ''010'') = Inr 8" by (simp add: hex_defs)
  show "Hex_UnmarshalXML (Inr ''0b101'') = Inr 5" by (simp add: hex_defs)
  show "Hex_UnmarshalXML (Inr ''0o17'') = Inr 15" by (simp add: hex_defs)
  show "Hex_UnmarshalXML (Inr ''1_000'') = Inr 1000" by (simp add: hex_defs)
next
  fix ds
  assume "ds \<noteq> [] \<and> (\<forall>c\<in>set ds. is_oct c) \<and> digits_value 8 0 ds < 2 ^ 64"
  then show "Hex_UnmarshalXML (Inr (''0'' @ ds)) = Inr (of_nat (digits_value 8 0 ds))"
    using octal_literal [of ds] Hex_UnmarshalXML_literal [of "''0'' @ ds"] by simp
next
  fix s
  assume "int_lit s \<and> int_lit_value s < 2 ^ 64"
  then show "Hex_UnmarshalXML (Inr s) = Inr (of_nat (int_lit_value s))"
    using Hex_UnmarshalXML_literal by blast
qed

theorem Hex_UnmarshalXML_other_forms_witness:
  "Hex_UnmarshalXML (Inr ''0777'' :: unit + string) = Inr 511 \<and>
   int_lit ''0b1_01'' \<and> Hex_UnmarshalXML (Inr ''0b1_01'' :: unit + string) = Inr 5"
proof -
  note t = Hex_UnmarshalXML_other_forms [where ?'a = unit]
  have o: "Hex_UnmarshalXML (Inr (''0'' @ ''777'') :: unit + string) = Inr (of_nat (digits_value 8 0 ''777''))"
    using t [THEN conjunct2, THEN conjunct2, THEN conjunct2, THEN conjunct2, THEN conjunct1, rule_format, of "''777''"]
    by (simp add: lit_eval)
  have l: "int_lit ''0b1_01''" by (simp add: lit_eval)
  have v: "int_lit_value ''0b1_01'' = 5" by (simp add: lit_eval)
  have b: "Hex_UnmarshalXML (Inr ''0b1_01'' :: unit + string) = Inr (of_nat (int_lit_value ''0b1_01''))"
    using t [THEN conjunct2, THEN conjunct2, THEN conjunct2, THEN conjunct2, THEN conjunct2, rule_format, of "''0b1_01''"] l v
    by simp
  show ?thesis using o l b v by (simp add: lit_eval)
qed

section \<open>Properties of the linker\<close>

subsection \<open>Heaps that differ in back-references only\<close>

lemma erase_apply_write: "erase_backrefs (apply_write w h) = erase_backrefs h"
  by (cases w) (auto simp: erase_backrefs_def fun_eq_iff split: option.splits)

lemma erase_fold: "erase_backrefs (fold apply_write ws h) = erase_backrefs h"
  by (induction ws arbitrary: h) (simp_all add: erase_apply_write)

lemma erase_eq_blocks:
  assumes "erase_backrefs g = erase_backrefs h"
  shows "map_option Block_Nested (blocks g p) = map_option Block_Nested (blocks h p)"
    and "map_option Block_Bitfield (blocks g p) = map_option Block_Bitfield (blocks h p)"
proof -
  let ?E = "\<lambda>blk. blk\<lparr>Block_Message := None\<rparr>"
  have "blocks (erase_backrefs g) p = blocks (erase_backrefs h) p" using assms by simp
  then have e: "map_option ?E (blocks g p) = map_option ?E (blocks h p)"
    by (simp add: erase_backrefs_def)
  have "map_option Block_Nested (map_option ?E (blocks g p)) = map_option Block_Nested (map_option ?E (blocks h p))"
    using e by simp
  then show "map_option Block_Nested (blocks g p) = map_option Block_Nested (blocks h p)"
    by (simp add: option.map_comp comp_def)
  have "map_option Block_Bitfield (map_option ?E (blocks g p)) = map_option Block_Bitfield (map_option ?E (blocks h p))"
    using e by simp
  then show "map_option Block_Bitfield (blocks g p) = map_option Block_Bitfield (blocks h p)"
    by (simp add: option.map_comp comp_def)
qed

lemma erase_eq_bitdefs:
  assumes "erase_backrefs g = erase_backrefs h"
  shows "(bitdefs g v = None) = (bitdefs h v = None)"
proof -
  have "bitdefs (erase_backrefs g) v = bitdefs (erase_backrefs h) v" using assms by simp
  then show ?thesis by (simp add: erase_backrefs_def) (metis option.map_disc_iff)
qed

lemma erase_eq_messages:
  assumes "erase_backrefs g = erase_backrefs h"
  shows "messages g = messages h"
proof -
  have "messages (erase_backrefs g) = messages (erase_backrefs h)" using assms by simp
  then show ?thesis by (simp add: erase_backrefs_def)
qed

lemma erase_eq_block_cases:
  assumes "erase_backrefs g = erase_backrefs h"
  obtains "blocks g p = None" "blocks h p = None"
  | x y where "blocks g p = Some x" "blocks h p = Some y"
      "Block_Nested x = Block_Nested y" "Block_Bitfield x = Block_Bitfield y"
  using erase_eq_blocks [OF assms, of p]
  by (cases "blocks g p"; cases "blocks h p") auto

lemma Block_wf_erase:
  "erase_backrefs g = erase_backrefs h \<Longrightarrow> Block_wf depth g b = Block_wf depth h b"
proof (induction depth arbitrary: b)
  case 0
  then show ?case by simp
next
  case (Suc depth)
  from Suc.prems show ?case
  proof (cases rule: erase_eq_block_cases [where p = b])
    case 1
    then show ?thesis by simp
  next
    case (2 x y)
    then show ?thesis
      using Suc.IH [OF Suc.prems] erase_eq_bitdefs [OF Suc.prems]
      by (simp add: list_all_iff)
  qed
qed

lemma Block_writes_erase:
  "erase_backrefs g = erase_backrefs h \<Longrightarrow> Block_writes depth g b m = Block_writes depth h b m"
proof (induction depth arbitrary: b)
  case 0
  then show ?case by simp
next
  case (Suc depth)
  from Suc.prems show ?case
  proof (cases rule: erase_eq_block_cases [where p = b])
    case 1
    then show ?thesis by simp
  next
    case (2 x y)
    then show ?thesis
      using Suc.IH [OF Suc.prems] by simp
  qed
qed

subsection \<open>The linker performs its list of assignments\<close>

lemma set_Message_apply:
  "blocks h b \<noteq> None \<Longrightarrow> set_Message b m h = Inr (apply_write (SetMessage b m) h)"
  by (auto simp: set_Message_def)

lemma set_Field_apply:
  "bitdefs h v \<noteq> None \<Longrightarrow> set_Field v b h = Inr (apply_write (SetField v b) h)"
  by (auto simp: set_Field_def)

lemma for_range_set_Field:
  "\<forall>v\<in>set vs. bitdefs h v \<noteq> None \<Longrightarrow>
     for_range vs (\<lambda>v. set_Field v b) h = Inr (fold apply_write (map (\<lambda>v. SetField v b) vs) h)"
proof (induction vs arbitrary: h)
  case Nil
  then show ?case by simp
next
  case (Cons v vs)
  let ?h = "apply_write (SetField v b) h"
  have "erase_backrefs ?h = erase_backrefs h" by (rule erase_apply_write)
  then have "\<forall>u\<in>set vs. bitdefs ?h u \<noteq> None"
    using Cons.prems erase_eq_bitdefs by (metis list.set_intros(2))
  then show ?case
    using Cons.IH [of ?h] Cons.prems by (simp add: set_Field_apply)
qed

lemma for_range_Block_Link:
  assumes IH: "\<And>g c. Block_wf depth g c \<Longrightarrow>
                 Block_Link depth c m g = Inr (fold apply_write (Block_writes depth g c m) g)"
    and "\<forall>c\<in>set cs. Block_wf depth h c" and "erase_backrefs g = erase_backrefs h"
  shows "for_range cs (\<lambda>v. Block_Link depth v m) g
         = Inr (fold apply_write (concat (map (\<lambda>v. Block_writes depth h v m) cs)) g)"
  using assms(2,3)
proof (induction cs arbitrary: g)
  case Nil
  then show ?case by simp
next
  case (Cons c cs)
  have wf: "Block_wf depth g c"
    using Cons.prems(1) Block_wf_erase [OF Cons.prems(2), of depth c] by simp
  let ?g = "fold apply_write (Block_writes depth h c m) g"
  have w: "Block_writes depth g c m = Block_writes depth h c m"
    using Cons.prems(2) by (rule Block_writes_erase)
  have "erase_backrefs ?g = erase_backrefs h" using Cons.prems by (simp add: erase_fold)
  then have "for_range cs (\<lambda>v. Block_Link depth v m) ?g
      = Inr (fold apply_write (concat (map (\<lambda>v. Block_writes depth h v m) cs)) ?g)"
    using Cons.IH Cons.prems by simp
  then show ?case using IH [OF wf] w by simp
qed

lemma Block_Link_writes:
  "Block_wf depth h b \<Longrightarrow>
     Block_Link depth b m h = Inr (fold apply_write (Block_writes depth h b m) h)"
proof (induction depth arbitrary: h b)
  case 0
  then show ?case by simp
next
  case (Suc depth)
  from Suc.prems obtain blk where blk: "blocks h b = Some blk"
    and bits: "\<forall>v\<in>set (Block_Bitfield blk). bitdefs h v \<noteq> None"
    and nest: "\<forall>c\<in>set (Block_Nested blk). Block_wf depth h c"
    by (auto simp: list_all_iff split: option.splits)
  let ?h1 = "apply_write (SetMessage b m) h"
  let ?h2 = "fold apply_write (map (\<lambda>v. SetField v b) (Block_Bitfield blk)) ?h1"
  have s1: "set_Message b m h = Inr ?h1" using blk by (simp add: set_Message_apply)
  have b1: "blocks ?h1 b = Some (blk\<lparr>Block_Message := Some m\<rparr>)" using blk by simp
  have e1: "erase_backrefs ?h1 = erase_backrefs h" by (rule erase_apply_write)
  have "\<forall>v\<in>set (Block_Bitfield blk). bitdefs ?h1 v \<noteq> None"
    using bits erase_eq_bitdefs [OF e1] by simp
  then have s2: "for_range (Block_Bitfield blk) (\<lambda>v. set_Field v b) ?h1 = Inr ?h2"
    by (rule for_range_set_Field)
  have e2: "erase_backrefs ?h2 = erase_backrefs h" using e1 by (simp add: erase_fold)
  have s3: "for_range (Block_Nested blk) (\<lambda>v. Block_Link depth v m) ?h2
      = Inr (fold apply_write (concat (map (\<lambda>v. Block_writes depth h v m) (Block_Nested blk))) ?h2)"
    using Suc.IH nest e2 by (rule for_range_Block_Link)
  show ?case
    using blk by (simp add: s1 b1 s2 s3 del: apply_write.simps)
qed

lemma Message_Link_writes:
  assumes "Message_wf depth h d" "erase_backrefs g = erase_backrefs h"
  shows "Message_Link depth d g = Inr (fold apply_write (Message_writes depth h d) g)"
proof -
  from assms(1) obtain msg where msg: "messages h d = Some msg"
    and wf: "\<forall>c\<in>set (Message_Blocks msg). Block_wf depth h c"
    by (auto simp: Message_wf_def list_all_iff split: option.splits)
  have "messages g d = Some msg" using msg erase_eq_messages [OF assms(2)] by simp
  moreover have "for_range (Message_Blocks msg) (\<lambda>v. Block_Link depth v d) g
      = Inr (fold apply_write (concat (map (\<lambda>v. Block_writes depth h v d) (Message_Blocks msg))) g)"
    using Block_Link_writes wf assms(2) by (rule for_range_Block_Link)
  ultimately show ?thesis using msg by (simp add: Message_Link_def Message_writes_def)
qed

lemma for_range_Message_Link:
  assumes "\<forall>d\<in>set ds. Message_wf depth h d" "erase_backrefs g = erase_backrefs h"
  shows "for_range ds (\<lambda>v. Message_Link depth v) g
         = Inr (fold apply_write (concat (map (Message_writes depth h) ds)) g)"
  using assms
proof (induction ds arbitrary: g)
  case Nil
  then show ?case by simp
next
  case (Cons d ds)
  let ?g = "fold apply_write (Message_writes depth h d) g"
  have "erase_backrefs ?g = erase_backrefs h" using Cons.prems by (simp add: erase_fold)
  then have "for_range ds (\<lambda>v. Message_Link depth v) ?g
      = Inr (fold apply_write (concat (map (Message_writes depth h) ds)) ?g)"
    using Cons.IH Cons.prems by simp
  moreover have "Message_Link depth d g = Inr ?g"
    using Cons.prems by (intro Message_Link_writes) simp_all
  ultimately show ?case by simp
qed

lemma Definitions_Link_writes:
  assumes "Definitions_wf depth h d" "erase_backrefs g = erase_backrefs h"
  shows "Definitions_Link depth d g = Inr (fold apply_write (Definitions_writes depth h d) g)"
  using assms for_range_Message_Link [of "Definitions_Message d" depth h g]
  by (simp add: Definitions_Link_def Definitions_writes_def Definitions_wf_def list_all_iff)

subsection \<open>The linker returns on well-formed graphs only\<close>

text \<open>
  Well-formedness is not a restriction of convenience: a pass returns a heap exactly
  on the well-formed graphs, and panics (a \<open>nil\<close> dereference, or the stack
  exhausted) on every other one.
\<close>

lemma for_range_set_Field_Inr:
  "for_range vs (\<lambda>v. set_Field v b) g = Inr g' \<Longrightarrow> \<forall>v\<in>set vs. bitdefs g v \<noteq> None"
proof (induction vs arbitrary: g)
  case Nil
  then show ?case by simp
next
  case (Cons v vs)
  from Cons.prems obtain g1 where g1: "set_Field v b g = Inr g1"
    and rest: "for_range vs (\<lambda>v. set_Field v b) g1 = Inr g'"
    by (auto split: sum.splits)
  from g1 have v: "bitdefs g v \<noteq> None" by (auto simp: set_Field_def split: option.splits)
  then have "g1 = apply_write (SetField v b) g" using g1 by (simp add: set_Field_apply)
  then have "erase_backrefs g1 = erase_backrefs g" by (simp only: erase_apply_write)
  then have "\<forall>u\<in>set vs. bitdefs g u \<noteq> None"
    using Cons.IH [OF rest] erase_eq_bitdefs by blast
  then show ?case using v by simp
qed

lemma for_range_Block_Link_Inr:
  assumes IH: "\<And>g c g'. Block_Link depth c m g = Inr g' \<Longrightarrow> Block_wf depth g c"
  shows "for_range cs (\<lambda>v. Block_Link depth v m) g = Inr g' \<Longrightarrow> \<forall>c\<in>set cs. Block_wf depth g c"
proof (induction cs arbitrary: g)
  case Nil
  then show ?case by simp
next
  case (Cons c cs)
  from Cons.prems obtain g1 where g1: "Block_Link depth c m g = Inr g1"
    and rest: "for_range cs (\<lambda>v. Block_Link depth v m) g1 = Inr g'"
    by (auto split: sum.splits)
  have wf: "Block_wf depth g c" using g1 by (rule IH)
  then have "g1 = fold apply_write (Block_writes depth g c m) g"
    using g1 Block_Link_writes [of depth g c m] by simp
  then have e: "erase_backrefs g1 = erase_backrefs g" by (simp add: erase_fold)
  have "\<forall>c\<in>set cs. Block_wf depth g1 c" using rest by (rule Cons.IH)
  then have "\<forall>c\<in>set cs. Block_wf depth g c" using Block_wf_erase [OF e] by simp
  then show ?case using wf by simp
qed

lemma Block_Link_Inr_wf: "Block_Link depth b m h = Inr h' \<Longrightarrow> Block_wf depth h b"
proof (induction depth arbitrary: h b h')
  case 0
  then show ?case by simp
next
  case (Suc depth)
  from Suc.prems obtain h1 blk1 h2 where h1: "set_Message b m h = Inr h1"
    and blk1: "blocks h1 b = Some blk1"
    and h2: "for_range (Block_Bitfield blk1) (\<lambda>v. set_Field v b) h1 = Inr h2"
    and rest: "for_range (Block_Nested blk1) (\<lambda>v. Block_Link depth v m) h2 = Inr h'"
    by (auto split: sum.splits option.splits)
  from h1 obtain blk where blk: "blocks h b = Some blk"
    by (auto simp: set_Message_def split: option.splits)
  then have h1_eq: "h1 = apply_write (SetMessage b m) h" using h1 by (simp add: set_Message_apply)
  then have e1: "erase_backrefs h1 = erase_backrefs h" by (simp only: erase_apply_write)
  have fields: "Block_Bitfield blk1 = Block_Bitfield blk" "Block_Nested blk1 = Block_Nested blk"
    using blk blk1 h1_eq by auto
  have "\<forall>v\<in>set (Block_Bitfield blk1). bitdefs h1 v \<noteq> None"
    using h2 by (rule for_range_set_Field_Inr)
  then have bits: "\<forall>v\<in>set (Block_Bitfield blk). bitdefs h v \<noteq> None"
    using fields erase_eq_bitdefs [OF e1] by simp
  have "h2 = fold apply_write (map (\<lambda>v. SetField v b) (Block_Bitfield blk1)) h1"
    using h2 for_range_set_Field [OF \<open>\<forall>v\<in>set (Block_Bitfield blk1). bitdefs h1 v \<noteq> None\<close>, of b] by simp
  then have e2: "erase_backrefs h2 = erase_backrefs h" using e1 by (simp add: erase_fold)
  have "\<forall>c\<in>set (Block_Nested blk1). Block_wf depth h2 c"
    using Suc.IH rest by (rule for_range_Block_Link_Inr)
  then have "\<forall>c\<in>set (Block_Nested blk). Block_wf depth h c"
    using fields Block_wf_erase [OF e2] by simp
  then show ?case using blk bits by (simp add: list_all_iff)
qed

lemma Message_Link_Inr_wf: "Message_Link depth d h = Inr h' \<Longrightarrow> Message_wf depth h d"
proof -
  assume a: "Message_Link depth d h = Inr h'"
  then obtain msg where msg: "messages h d = Some msg"
    and r: "for_range (Message_Blocks msg) (\<lambda>v. Block_Link depth v d) h = Inr h'"
    by (auto simp: Message_Link_def split: option.splits)
  have "\<forall>c\<in>set (Message_Blocks msg). Block_wf depth h c"
    using Block_Link_Inr_wf r by (rule for_range_Block_Link_Inr)
  then show ?thesis using msg by (simp add: Message_wf_def list_all_iff)
qed

lemma for_range_Message_Link_Inr:
  "for_range ds (\<lambda>v. Message_Link depth v) g = Inr g' \<Longrightarrow> \<forall>d\<in>set ds. Message_wf depth g d"
proof (induction ds arbitrary: g)
  case Nil
  then show ?case by simp
next
  case (Cons d ds)
  from Cons.prems obtain g1 where g1: "Message_Link depth d g = Inr g1"
    and rest: "for_range ds (\<lambda>v. Message_Link depth v) g1 = Inr g'"
    by (auto split: sum.splits)
  have wf: "Message_wf depth g d" using g1 by (rule Message_Link_Inr_wf)
  then have "g1 = fold apply_write (Message_writes depth g d) g"
    using g1 Message_Link_writes [OF wf refl] by simp
  then have e: "erase_backrefs g1 = erase_backrefs g" by (simp add: erase_fold)
  have "\<forall>d\<in>set ds. Message_wf depth g1 d" using rest by (rule Cons.IH)
  moreover have "Message_wf depth g1 x = Message_wf depth g x" for x
  proof -
    have "Block_wf depth g1 = Block_wf depth g" using Block_wf_erase [OF e] by (simp add: fun_eq_iff)
    then show ?thesis using erase_eq_messages [OF e] by (simp only: Message_wf_def)
  qed
  ultimately show ?case using wf by simp
qed

lemma Definitions_Link_Inr_iff:
  "(\<exists>h'. Definitions_Link depth d h = Inr h') \<longleftrightarrow> Definitions_wf depth h d"
proof
  assume "\<exists>h'. Definitions_Link depth d h = Inr h'"
  then show "Definitions_wf depth h d"
    using for_range_Message_Link_Inr [of "Definitions_Message d" depth h]
    by (auto simp: Definitions_Link_def Definitions_wf_def list_all_iff)
next
  assume "Definitions_wf depth h d"
  then show "\<exists>h'. Definitions_Link depth d h = Inr h'"
    using Definitions_Link_writes [of depth h d h] by simp
qed

subsection \<open>The heap after a list of assignments\<close>

lemma fold_messages: "messages (fold apply_write ws h) = messages h"
proof (induction ws arbitrary: h)
  case Nil
  then show ?case by simp
next
  case (Cons w ws)
  have "messages (apply_write w h) = messages h"
    by (cases w) (simp_all split: option.splits)
  then show ?case using Cons.IH by simp
qed

lemma fold_more: "heap.more (fold apply_write ws h) = heap.more h"
proof (induction ws arbitrary: h)
  case Nil
  then show ?case by simp
next
  case (Cons w ws)
  have "heap.more (apply_write w h) = heap.more h"
    by (cases w) (simp_all split: option.splits)
  then show ?case using Cons.IH by simp
qed

lemma blocks_apply_write:
  "blocks (apply_write w h) p =
     map_option (\<lambda>blk. case w of SetMessage b m \<Rightarrow> if b = p then blk\<lparr>Block_Message := Some m\<rparr> else blk
                                 | SetField v b \<Rightarrow> blk) (blocks h p)"
  by (cases w; cases "blocks h p") (auto split: option.splits)

lemma bitdefs_apply_write:
  "bitdefs (apply_write w h) p =
     map_option (\<lambda>bd. case w of SetField v b \<Rightarrow> if v = p then bd\<lparr>BitDef_Field := Some b\<rparr> else bd
                                | SetMessage b m \<Rightarrow> bd) (bitdefs h p)"
  by (cases w; cases "bitdefs h p") (auto split: option.splits)

lemma fold_blocks:
  "blocks (fold apply_write ws h) p =
     map_option (\<lambda>blk. case last_Message ws p of None \<Rightarrow> blk | Some m \<Rightarrow> blk\<lparr>Block_Message := Some m\<rparr>)
       (blocks h p)"
proof (induction ws arbitrary: h)
  case Nil
  then show ?case by (simp add: option.map_ident)
next
  case (Cons w ws)
  show ?case
    by (cases w; cases "blocks h p")
       (auto simp: Cons.IH blocks_apply_write split: option.splits)
qed

lemma fold_bitdefs:
  "bitdefs (fold apply_write ws h) p =
     map_option (\<lambda>bd. case last_Field ws p of None \<Rightarrow> bd | Some b \<Rightarrow> bd\<lparr>BitDef_Field := Some b\<rparr>)
       (bitdefs h p)"
proof (induction ws arbitrary: h)
  case Nil
  then show ?case by (simp add: option.map_ident)
next
  case (Cons w ws)
  show ?case
    by (cases w; cases "bitdefs h p")
       (auto simp: Cons.IH bitdefs_apply_write split: option.splits)
qed

lemma fold_apply_write_twice:
  "fold apply_write ws (fold apply_write ws h) = fold apply_write ws h"
proof (rule heap.equality)
  show "messages (fold apply_write ws (fold apply_write ws h)) = messages (fold apply_write ws h)"
    by (simp add: fold_messages)
  show "blocks (fold apply_write ws (fold apply_write ws h)) = blocks (fold apply_write ws h)"
  proof
    fix p
    show "blocks (fold apply_write ws (fold apply_write ws h)) p = blocks (fold apply_write ws h) p"
      by (cases "blocks h p") (simp_all add: fold_blocks split: option.splits)
  qed
  show "bitdefs (fold apply_write ws (fold apply_write ws h)) = bitdefs (fold apply_write ws h)"
  proof
    fix p
    show "bitdefs (fold apply_write ws (fold apply_write ws h)) p = bitdefs (fold apply_write ws h) p"
      by (cases "bitdefs h p") (simp_all add: fold_bitdefs split: option.splits)
  qed
  show "heap.more (fold apply_write ws (fold apply_write ws h)) = heap.more (fold apply_write ws h)"
    by (simp add: fold_more)
qed





subsection \<open>Every enclosed Block is assigned\<close>





lemmas example_eval = example_heap_def example_definitions_def Definitions_wf_def Message_wf_def
  Definitions_owned_def Definitions_writes_def Message_writes_def numeral_2_eq_2

lemma example_wf: "Definitions_wf 2 example_heap example_definitions"
  by (simp add: example_eval)





text \<open>
  Claim C6.  On a graph without \<open>nil\<close> pointers, nested no deeper than the stack
  allows, the Link pass finishes, a second pass leaves the heap exactly as the first
  left it, and the heap after the pass differs from the heap before it in
  back-references only.
\<close>

theorem Link_idempotent:
  assumes "Definitions_wf depth h d"
  shows "\<exists>h'. Definitions_Link depth d h = Inr h' \<and> Definitions_Link depth d h' = Inr h' \<and>
           erase_backrefs h' = erase_backrefs h"
proof -
  let ?W = "Definitions_writes depth h d"
  let ?h' = "fold apply_write ?W h"
  have er: "erase_backrefs ?h' = erase_backrefs h" by (rule erase_fold)
  have "Definitions_Link depth d h = Inr ?h'"
    using assms by (intro Definitions_Link_writes) simp_all
  moreover have "Definitions_Link depth d ?h' = Inr (fold apply_write ?W ?h')"
    using assms er by (rule Definitions_Link_writes)
  ultimately show ?thesis using er by (simp add: fold_apply_write_twice)
qed

theorem Link_idempotent_witness:
  "Definitions_wf 2 example_heap example_definitions \<and>
   (\<exists>h'. Definitions_Link 2 example_definitions example_heap = Inr h' \<and>
      Definitions_Link 2 example_definitions h' = Inr h' \<and>
      erase_backrefs h' = erase_backrefs example_heap)"
  using Link_idempotent [OF example_wf] example_wf by blast

end
